theory Spec2Isabelle
  imports Main "HOL-Library.Word"
begin

unbundle bit_operations_syntax

section \<open>Machine integers and the outcome of running C code\<close>

type_synonym u8 = "8 word"
type_synonym u16 = "16 word"
type_synonym u32 = "32 word"
type_synonym u64 = "64 word"

text \<open>
  A C function of the datapath either returns (possibly an error code or a NULL pointer,
  which are ordinary return values) or leaves the defined behaviour of C: an access
  outside an allocated array, a NULL dereference, a division by zero, a loop that never
  ends. The second kind is a \<open>Fault\<close>. \<open>OutOfBounds i\<close> records the offending index.
  \<open>OutOfFuel\<close> is the only outcome that belongs to the model and not to the code: the
  loops of \<open>sort\<close> and of \<open>dispatch\<close> are run with a step budget.
\<close>

datatype fault = OutOfBounds nat | NullPointer | DivideByZero | Hang | OutOfFuel

datatype 'a exec = Done 'a | Fault fault

definition exec_bind :: "'a exec \<Rightarrow> ('a \<Rightarrow> 'b exec) \<Rightarrow> 'b exec" where
  "exec_bind m f = (case m of Done x \<Rightarrow> f x | Fault e \<Rightarrow> Fault e)"

text \<open>Reading and writing a C array through an index, with the bounds made explicit.\<close>

definition rd :: "'a list \<Rightarrow> nat \<Rightarrow> 'a exec" where
  "rd a i = (if i < length a then Done (a ! i) else Fault (OutOfBounds i))"

definition wr :: "'a list \<Rightarrow> nat \<Rightarrow> 'a \<Rightarrow> 'a list exec" where
  "wr a i v = (if i < length a then Done (a[i := v]) else Fault (OutOfBounds i))"

section \<open>Flow table (datapath/tt.c)\<close>

record tt_table_item =
  flow_id :: u16
  buffer_id :: u32
  circle :: u64
  len :: u32
  time :: u64

text \<open>
  \<open>struct tt_table\<close>: \<open>count\<close>, \<open>max\<close> and the flexible array \<open>tt_items\<close> of \<open>max\<close>
  pointers. \<open>max\<close> is written once, by \<open>tt_table_alloc\<close>, to the number of slots it
  allocated, so it is the length of the slot list here. A NULL slot is \<open>None\<close>; a NULL
  table pointer is \<open>None\<close> at type \<open>tt_table option\<close>. \<open>count\<close> and \<open>max\<close> are C ints.
\<close>

record tt_table =
  tt_count :: int
  tt_items :: "tt_table_item option list"

definition tt_max :: "tt_table \<Rightarrow> int" where
  "tt_max t = int (length (tt_items t))"

text \<open>
  \<open>TT_TABLE_SIZE_MIN\<close> is declared in a header that is not among the sources; it is the
  parameter \<open>tmin\<close> of every function that uses it. \<open>ok\<close> says whether the kernel
  allocator serves the allocations of the call.
\<close>

definition tt_table_alloc :: "int \<Rightarrow> bool \<Rightarrow> int \<Rightarrow> tt_table option" where
  "tt_table_alloc tmin ok sz =
     (if ok then Some \<lparr>tt_count = 0, tt_items = replicate (nat (max tmin sz)) None\<rparr>
      else None)"

text \<open>The copy loop of \<open>tt_table_realloc\<close>: \<open>for (i = 0; i < old->max; i++)\<close>.\<close>

fun realloc_copy :: "tt_table_item option list \<Rightarrow> nat \<Rightarrow> tt_table_item option list
    \<Rightarrow> tt_table_item option list exec" where
  "realloc_copy [] i new = Done new"
| "realloc_copy (x # xs) i new =
     (case x of
        None \<Rightarrow> realloc_copy xs (Suc i) new
      | Some it \<Rightarrow> exec_bind (wr new i (Some it)) (realloc_copy xs (Suc i)))"

definition tt_table_realloc :: "int \<Rightarrow> bool \<Rightarrow> tt_table option \<Rightarrow> int \<Rightarrow> tt_table option exec" where
  "tt_table_realloc tmin ok old sz =
     (case tt_table_alloc tmin ok sz of
        None \<Rightarrow> Done None
      | Some new \<Rightarrow>
          (case old of
             None \<Rightarrow> Done (Some new)
           | Some old_t \<Rightarrow>
               exec_bind (realloc_copy (tt_items old_t) 0 (tt_items new))
                 (\<lambda>items. Done (Some \<lparr>tt_count = tt_count old_t, tt_items = items\<rparr>))))"

definition tt_table_lookup :: "tt_table option \<Rightarrow> u16 \<Rightarrow> tt_table_item option" where
  "tt_table_lookup cur_tt_table fid =
     (case cur_tt_table of
        None \<Rightarrow> None
      | Some t \<Rightarrow> if uint fid \<ge> tt_max t then None else tt_items t ! unat fid)"

definition tt_table_num_items :: "tt_table \<Rightarrow> int" where
  "tt_table_num_items cur_tt_table = tt_count cur_tt_table"

definition tt_table_delete_item :: "int \<Rightarrow> bool \<Rightarrow> tt_table option \<Rightarrow> u16 \<Rightarrow> tt_table option exec" where
  "tt_table_delete_item tmin ok cur_tt_table fid =
     (case cur_tt_table of
        None \<Rightarrow> Done None
      | Some t \<Rightarrow>
          if uint fid \<ge> tt_max t then Done None
          else
            let t1 = (case tt_items t ! unat fid of
                        None \<Rightarrow> t
                      | Some it \<Rightarrow> t\<lparr>tt_items := (tt_items t)[unat fid := None],
                                     tt_count := tt_count t - 1\<rparr>)
            in if tt_max t1 \<ge> tmin * 2 \<and> tt_count t1 \<le> tt_max t1 div 3
               then exec_bind (tt_table_realloc tmin ok (Some t1) (tt_max t1 div 2))
                      (\<lambda>res. case res of None \<Rightarrow> Done (Some t1) | Some r \<Rightarrow> Done (Some r))
               else Done (Some t1))"

text \<open>
  \<open>tt_table_item_insert\<close>. The new item is a fresh copy of the five fields. The table is
  reallocated when there is none or when \<open>flow_id > max\<close>; the store
  \<open>tt_items[flow_id] = item\<close> follows in every case, and \<open>count\<close> is not touched.
\<close>

definition insert_store :: "tt_table \<Rightarrow> u16 \<Rightarrow> tt_table_item \<Rightarrow> tt_table option exec" where
  "insert_store t fid item =
     exec_bind (wr (tt_items t) (unat fid) (Some item))
       (\<lambda>items. Done (Some (t\<lparr>tt_items := items\<rparr>)))"

definition tt_table_item_insert :: "int \<Rightarrow> bool \<Rightarrow> tt_table option \<Rightarrow> tt_table_item
    \<Rightarrow> tt_table option exec" where
  "tt_table_item_insert tmin ok cur_tt_table new =
     (let fid = flow_id new in
      if ok then
        (let item = \<lparr>flow_id = flow_id new, buffer_id = buffer_id new, circle = circle new,
                      len = len new, time = time new\<rparr>;
             grow = exec_bind (tt_table_realloc tmin ok cur_tt_table (uint fid + tmin))
                      (\<lambda>res. case res of None \<Rightarrow> Done None
                                        | Some r \<Rightarrow> insert_store r fid item)
         in case cur_tt_table of
              None \<Rightarrow> grow
            | Some t \<Rightarrow> if uint fid > tt_max t then grow else insert_store t fid item)
      else Done None)"

text \<open>The number of occupied slots of a table, which \<open>count\<close> is meant to track.\<close>

definition occupied :: "tt_table \<Rightarrow> nat" where
  "occupied t = length (filter (\<lambda>s. s \<noteq> None) (tt_items t))"

section \<open>Control-plane assembly (ofproto/tt.c)\<close>

datatype tt_table_state = TTS_MUTABLE | TTS_CONST

record 'e onf_tt_table =
  expect_flows :: u32
  recv_flows :: u32
  max_flows :: u32
  state :: tt_table_state
  entry_list :: "'e list"

text \<open>
  \<open>onf_tt_flow_receive_end\<close>. The local \<open>error\<close> is never assigned: the three branches of
  the \<open>if\<close> chain are empty, so the function returns whatever the variable held, which is
  the parameter \<open>error\<close> here. After the chain the state is set through the table pointer
  without a test.
\<close>

definition onf_tt_flow_receive_end :: "int \<Rightarrow> 'e onf_tt_table option
    \<Rightarrow> (int \<times> 'e onf_tt_table) exec" where
  "onf_tt_flow_receive_end error tt_table =
     (let error1 =
        (case tt_table of
           None \<Rightarrow> error
         | Some t \<Rightarrow>
             if state t \<noteq> TTS_MUTABLE then error
             else if expect_flows t \<noteq> recv_flows t then error
             else error)
      in case tt_table of
           None \<Rightarrow> Fault NullPointer
         | Some t \<Rightarrow> Done (error1, t\<lparr>state := TTS_CONST\<rparr>))"

text \<open>\<open>onf_tt_flow_receive_start\<close> and \<open>onf_tt_table_add_entry\<close>, in the same way.\<close>

definition onf_tt_flow_receive_start :: "int \<Rightarrow> 'e onf_tt_table option \<Rightarrow> u32
    \<Rightarrow> (int \<times> 'e onf_tt_table) exec" where
  "onf_tt_flow_receive_start error tt_table flow_cnt =
     (case tt_table of
        None \<Rightarrow> Fault NullPointer
      | Some t \<Rightarrow> Done (error, t\<lparr>expect_flows := flow_cnt, state := TTS_MUTABLE\<rparr>))"

definition onf_tt_table_add_entry :: "int \<Rightarrow> 'e onf_tt_table option \<Rightarrow> 'e
    \<Rightarrow> (int \<times> 'e onf_tt_table) exec" where
  "onf_tt_table_add_entry error tt_table ttm =
     (case tt_table of
        None \<Rightarrow> Fault NullPointer
      | Some t \<Rightarrow> Done (error, t\<lparr>recv_flows := recv_flows t + 1,
                                  entry_list := entry_list t @ [ttm]\<rparr>))"

section \<open>Dispatcher (datapath/tt.c)\<close>

text \<open>
  The kernel macro \<open>do_div(n, base)\<close> (include/asm-generic/div64.h) is not part of the
  repository sources. It divides the 64-bit \<open>n\<close> in place and yields the remainder: \<open>gcd\<close>
  uses the remainder, \<open>lcm\<close> and the size loop of \<open>dispatch\<close> use the quotient left in the
  first argument. The kernel takes the divisor as a 32-bit value
  (\<open>uint32_t __base = (base)\<close>), which \<open>base32\<close> is. The pair \<open>do_div n base\<close> is (new value
  of \<open>n\<close>, value of the macro). A zero divisor traps; every caller below tests
  \<open>base32 base = 0\<close> before it divides.
\<close>

definition base32 :: "u64 \<Rightarrow> u64" where
  "base32 base = ucast (ucast base :: u32)"

definition do_div :: "u64 \<Rightarrow> u64 \<Rightarrow> u64 \<times> u64" where
  "do_div n base = (n div base32 base, n mod base32 base)"

lemma base32_take_bit: "base32 b = take_bit 32 b"
  unfolding base32_def by (rule bit_word_eqI) (auto simp: bit_simps)

lemma base32_unat: "unat (base32 b) = take_bit 32 (unat b)"
  by (simp only: base32_take_bit unsigned_take_bit_eq)

lemma base32_le: "unat (base32 b) \<le> unat b"
  by (simp only: base32_unat take_bit_nat_less_eq_self)

function gcd64 :: "u64 \<Rightarrow> u64 \<Rightarrow> u64 exec" where
  "gcd64 a b =
     (if b = 0 then Done a
      else if base32 b = 0 then Fault DivideByZero
      else gcd64 b (snd (do_div a b)))"
  by pat_completeness auto
termination
proof (relation "measure (\<lambda>(a, b). unat b)")
  show "wf (measure (\<lambda>(a, b). unat b))" by simp
next
  fix a b :: u64
  assume "b \<noteq> 0" and nz: "base32 b \<noteq> 0"
  have "0 < unat (base32 b)" using nz by (simp add: unat_gt_0)
  then have "unat a mod unat (base32 b) < unat (base32 b)" by (rule mod_less_divisor)
  then have "unat (a mod base32 b) < unat b"
    using base32_le [of b] by (simp add: unat_mod)
  then show "((b, snd (do_div a b)), a, b) \<in> measure (\<lambda>(a, b). unat b)"
    by (simp add: do_div_def)
qed

definition lcm64 :: "u64 \<Rightarrow> u64 \<Rightarrow> u64 exec" where
  "lcm64 a b =
     exec_bind (gcd64 a b) (\<lambda>g.
       if base32 g = 0 then Fault DivideByZero
       else Done (fst (do_div a g) * b))"

text \<open>The two parallel arrays \<open>send_times\<close> and \<open>flow_ids\<close>, and the macro \<open>SWAP\<close>.\<close>

type_synonym arrays = "u64 list \<times> u16 list"

definition swap :: "'a list \<Rightarrow> nat \<Rightarrow> nat \<Rightarrow> 'a list exec" where
  "swap a i j =
     exec_bind (rd a i) (\<lambda>x. exec_bind (rd a j) (\<lambda>y.
     exec_bind (wr a i y) (\<lambda>a1. wr a1 j x)))"

definition swap_both :: "arrays \<Rightarrow> u16 \<Rightarrow> u16 \<Rightarrow> arrays exec" where
  "swap_both st i j =
     exec_bind (swap (fst st) (unat i) (unat j)) (\<lambda>ts.
     exec_bind (swap (snd st) (unat i) (unat j)) (\<lambda>fs. Done (ts, fs)))"

text \<open>
  \<open>sort\<close>: the indices are \<open>__u16\<close>, so \<open>l++\<close>, \<open>r--\<close>, \<open>l-1\<close> and \<open>l+1\<close> wrap at 16 bits.
  The two inner scans have no bound on the index; \<open>fuel\<close> bounds the number of steps of
  each loop and \<open>n\<close> the depth of the recursion.
\<close>

fun scan_l :: "nat \<Rightarrow> u64 list \<Rightarrow> u16 \<Rightarrow> u16 \<Rightarrow> u16 exec" where
  "scan_l 0 a l right = Fault OutOfFuel"
| "scan_l (Suc n) a l right =
     exec_bind (rd a (unat l)) (\<lambda>x. exec_bind (rd a (unat right)) (\<lambda>p.
       if x \<le> p then scan_l n a (l + 1) right else Done l))"

fun scan_r :: "nat \<Rightarrow> u64 list \<Rightarrow> u16 \<Rightarrow> u16 \<Rightarrow> u16 exec" where
  "scan_r 0 a r right = Fault OutOfFuel"
| "scan_r (Suc n) a r right =
     exec_bind (rd a (unat r)) (\<lambda>x. exec_bind (rd a (unat right)) (\<lambda>p.
       if x > p then scan_r n a (r - 1) right else Done r))"

fun part_loop :: "nat \<Rightarrow> nat \<Rightarrow> arrays \<Rightarrow> u16 \<Rightarrow> u16 \<Rightarrow> u16 \<Rightarrow> (arrays \<times> u16) exec" where
  "part_loop fuel 0 st l r right = Fault OutOfFuel"
| "part_loop fuel (Suc n) st l r right =
     (if l < r then
        exec_bind (scan_l fuel (fst st) l right) (\<lambda>l1.
        exec_bind (scan_r fuel (fst st) r right) (\<lambda>r1.
          if l1 < r1
          then exec_bind (swap_both st l1 r1) (\<lambda>st1. part_loop fuel n st1 l1 r1 right)
          else part_loop fuel n st l1 r1 right))
      else Done (st, l))"

text \<open>The median-of-three step that moves the pivot to \<open>send_times[right]\<close>.\<close>

definition pivot_to_right :: "arrays \<Rightarrow> u16 \<Rightarrow> u16 \<Rightarrow> arrays exec" where
  "pivot_to_right st left right =
     (let a = fst st; mid = left + (right - left) div 2 in
      exec_bind (rd a (unat right)) (\<lambda>ar. exec_bind (rd a (unat left)) (\<lambda>al.
      let r = (if ar < al then left else right);
          l = (if ar < al then right else left) in
      exec_bind (rd a (unat mid)) (\<lambda>am. exec_bind (rd a (unat l)) (\<lambda>vl.
        if am < vl then swap_both st l right
        else exec_bind (rd a (unat r)) (\<lambda>vr.
          if am > vr then swap_both st r right
          else swap_both st mid right))))))"

fun sort_c :: "nat \<Rightarrow> nat \<Rightarrow> arrays \<Rightarrow> u16 \<Rightarrow> u16 \<Rightarrow> arrays exec" where
  "sort_c fuel 0 st left right = Fault OutOfFuel"
| "sort_c fuel (Suc n) st left right =
     (if left \<ge> right then Done st
      else
        exec_bind (pivot_to_right st left right) (\<lambda>st1.
        exec_bind (part_loop fuel fuel st1 left (right - 1) right) (\<lambda>(st2, l).
        exec_bind (swap_both st2 l right) (\<lambda>st3.
        exec_bind (sort_c fuel n st3 left (l - 1)) (\<lambda>st4.
          sort_c fuel n st4 (l + 1) right)))))"

record tt_send_cache =
  send_times :: "u64 list"
  flow_ids :: "u16 list"
  cache_size :: u64

text \<open>\<open>advance_time\<close> is \<open>None\<close> while the freshly allocated field has not been written.\<close>

record tt_send_info =
  macro_period :: u64
  send_cache :: tt_send_cache
  advance_time :: "u64 option"

text \<open>
  The fields of the port that the scheduler touches. \<open>hrtimer_flag\<close> is the flag of
  vport.c that is 1 exactly while the timer is armed.
\<close>

record vport =
  send_info :: "tt_send_info option"
  send_tt_table :: "tt_table option"
  hrtimer_flag :: bool

datatype errno = EINVAL | ENOMEM

text \<open>
  The three loops of \<open>dispatch\<close> over the slots, each skipping the NULL slots:
  the macro period, the number of instants, and the instants themselves. The recursion
  over the list of slots is the loop \<open>for (i = 0; i < send_table->max; i++)\<close> as long as
  the \<open>__u16\<close> counter \<open>i\<close> can reach \<open>max\<close>, that is for a table of at most 65535 slots;
  \<open>dispatch\<close> below treats the larger tables apart.
\<close>

fun macro_loop :: "tt_table_item option list \<Rightarrow> u64 \<Rightarrow> u64 exec" where
  "macro_loop [] m = Done m"
| "macro_loop (x # xs) m =
     (case x of
        None \<Rightarrow> macro_loop xs m
      | Some it \<Rightarrow> exec_bind (lcm64 m (circle it)) (macro_loop xs))"

fun size_loop :: "tt_table_item option list \<Rightarrow> u64 \<Rightarrow> u64 \<Rightarrow> u64 exec" where
  "size_loop [] m sz = Done sz"
| "size_loop (x # xs) m sz =
     (case x of
        None \<Rightarrow> size_loop xs m sz
      | Some it \<Rightarrow>
          if base32 (circle it) = 0 then Fault DivideByZero
          else size_loop xs m (sz + fst (do_div m (circle it))))"

fun fill_item :: "nat \<Rightarrow> arrays \<Rightarrow> u16 \<Rightarrow> u64 \<Rightarrow> u64 \<Rightarrow> tt_table_item
    \<Rightarrow> (arrays \<times> u16) exec" where
  "fill_item 0 st k offset m it = Fault OutOfFuel"
| "fill_item (Suc n) st k offset m it =
     (if offset < m then
        exec_bind (wr (fst st) (unat k) offset) (\<lambda>ts.
        exec_bind (wr (snd st) (unat k) (flow_id it)) (\<lambda>fs.
          fill_item n (ts, fs) (k + 1) (offset + circle it) m it))
      else Done (st, k))"

fun fill_loop :: "nat \<Rightarrow> tt_table_item option list \<Rightarrow> arrays \<Rightarrow> u16 \<Rightarrow> u64
    \<Rightarrow> (arrays \<times> u16) exec" where
  "fill_loop fuel [] st k m = Done (st, k)"
| "fill_loop fuel (x # xs) st k m =
     (case x of
        None \<Rightarrow> fill_loop fuel xs st k m
      | Some it \<Rightarrow>
          exec_bind (fill_item fuel st k (time it) m it)
            (\<lambda>(st1, k1). fill_loop fuel xs st1 k1 m))"

text \<open>
  \<open>dispatch\<close>. The loop counter \<open>i\<close> is a \<open>__u16\<close>: a loop \<open>for (i = ...; i < bound; i++)\<close>
  whose bound exceeds 65535 goes through the first 65536 indices again and again and
  never ends. A missing table is the only tested failure
  besides the allocations. Fresh array cells are modelled as 0: the third loop writes
  every cell when each entry's offset is below its period, and a cell it leaves
  unwritten holds in the code whatever \<open>kmalloc\<close> returned. The result is the return
  code (\<open>None\<close> for 0) and the port.
\<close>

definition dispatch :: "nat \<Rightarrow> bool \<Rightarrow> vport \<Rightarrow> (errno option \<times> vport) exec" where
  "dispatch fuel ok vp =
     (case send_tt_table vp of
        None \<Rightarrow> Done (Some EINVAL, vp)
      | Some send_table \<Rightarrow>
          if send_info vp = None \<and> ok = False then Done (Some ENOMEM, vp)
          else if tt_max send_table > 65535
          then exec_bind (macro_loop (take 65536 (tt_items send_table)) 1) (\<lambda>m. Fault Hang)
          else
            exec_bind (macro_loop (tt_items send_table) 1) (\<lambda>m.
            exec_bind (size_loop (tt_items send_table) m 0) (\<lambda>sz.
              if ok then
                exec_bind (fill_loop fuel (tt_items send_table)
                             (replicate (unat sz) 0, replicate (unat sz) 0) 0 m) (\<lambda>(st1, k).
                exec_bind (sort_c fuel fuel st1 0 (ucast (sz - 1))) (\<lambda>st2.
                  if unat sz > 65535 then Fault Hang
                  else Done (None, vp\<lparr>send_info := Some
                         \<lparr>macro_period = m,
                          send_cache = \<lparr>send_times = fst st2, flow_ids = snd st2,
                                        cache_size = sz\<rparr>,
                          advance_time = (case send_info vp of None \<Rightarrow> None
                                          | Some si \<Rightarrow> advance_time si)\<rparr>\<rparr>)))
              else Done (Some ENOMEM, vp))))"

text \<open>
  \<open>ovs_vport_start_tt_schedule\<close> (vport.c): cancel the timer, run the dispatcher, set
  \<open>advance_time\<close> to the constant \<open>SEND_ADVANCE_TIME\<close> (a parameter here, its header is
  not among the sources), arm the timer.
\<close>

definition ovs_vport_start_tt_schedule :: "nat \<Rightarrow> bool \<Rightarrow> u64 \<Rightarrow> vport
    \<Rightarrow> (errno option \<times> vport) exec" where
  "ovs_vport_start_tt_schedule fuel ok adv vp =
     (let vp1 = vp\<lparr>hrtimer_flag := False\<rparr> in
      exec_bind (dispatch fuel ok vp1) (\<lambda>(rc, vp2).
        case rc of
          Some e \<Rightarrow> Done (Some EINVAL, vp2)
        | None \<Rightarrow>
            (case send_info vp2 of
               None \<Rightarrow> Fault NullPointer
             | Some si \<Rightarrow>
                 Done (None, vp2\<lparr>send_info := Some (si\<lparr>advance_time := Some adv\<rparr>),
                                  hrtimer_flag := True\<rparr>))))"

section \<open>Schedule lookup (datapath/tt.c)\<close>

text \<open>
  The midpoint \<open>(right - left) / 2 + left\<close> of two \<open>__u16\<close> indices with \<open>left < right\<close>
  does not wrap; the loop of \<open>binarySearch\<close> ends because of it.
\<close>

lemma mid_unat:
  fixes left right :: u16
  assumes "left < right"
  shows "unat ((right - left) div 2 + left) = unat left + (unat right - unat left) div 2"
proof -
  have le: "left \<le> right" using assms by simp
  have a: "unat (right - left) = unat right - unat left"
    using le by (simp add: unat_sub)
  have b: "unat ((right - left) div 2) = (unat right - unat left) div 2"
    by (simp add: unat_div a)
  have c: "unat right < 65536" using unsigned_less [of right, where ?'a = nat] by simp
  have d: "unat left < unat right" using assms by (simp add: word_less_nat_alt)
  have "unat ((right - left) div 2) + unat left < 2 ^ LENGTH(16)"
    using b c d by simp
  then have "unat ((right - left) div 2 + left) = unat ((right - left) div 2) + unat left"
    by (rule iffD1 [OF unat_add_lem])
  then show ?thesis using b by simp
qed

lemma mid_succ_unat:
  fixes left right :: u16
  assumes "left < right"
  shows "unat ((right - left) div 2 + left + 1)
         = Suc (unat left + (unat right - unat left) div 2)"
proof -
  have c: "unat right < 65536" using unsigned_less [of right, where ?'a = nat] by simp
  have d: "unat left < unat right" using assms by (simp add: word_less_nat_alt)
  have "unat ((right - left) div 2 + left) + unat (1::u16) < 2 ^ LENGTH(16)"
    using mid_unat [OF assms] c d by simp
  then have "unat ((right - left) div 2 + left + 1)
             = unat ((right - left) div 2 + left) + unat (1::u16)"
    by (rule iffD1 [OF unat_add_lem])
  then show ?thesis using mid_unat [OF assms] by simp
qed

function binarySearch_loop :: "u64 list \<Rightarrow> u64 \<Rightarrow> u16 \<Rightarrow> u16 \<Rightarrow> u16 exec" where
  "binarySearch_loop a modTime left right =
     (if left < right then
        (let mid = (right - left) div 2 + left in
         case rd a (unat mid) of
           Fault e \<Rightarrow> Fault e
         | Done x \<Rightarrow>
             if x \<le> modTime then binarySearch_loop a modTime (mid + 1) right
             else binarySearch_loop a modTime left mid)
      else Done left)"
  by pat_completeness auto

termination
proof (relation "measure (\<lambda>(a, m, left, right). unat right - unat left)")
  show "wf (measure (\<lambda>(a, m, left, right). unat right - unat left))" by simp
next
  fix a :: "u64 list" and modTime :: u64 and left right mid :: u16 and x2 :: u64
  assume lr: "left < right" and m: "mid = (right - left) div 2 + left"
  have d: "unat left < unat right" using lr by (simp add: word_less_nat_alt)
  show "((a, modTime, mid + 1, right), a, modTime, left, right)
         \<in> measure (\<lambda>(a, m, left, right). unat right - unat left)"
    using mid_succ_unat [OF lr] d by (simp add: m)
next
  fix a :: "u64 list" and modTime :: u64 and left right mid :: u16 and x2 :: u64
  assume lr: "left < right" and m: "mid = (right - left) div 2 + left"
  have d: "unat left < unat right" using lr by (simp add: word_less_nat_alt)
  show "((a, modTime, left, mid), a, modTime, left, right)
         \<in> measure (\<lambda>(a, m, left, right). unat right - unat left)"
    using mid_unat [OF lr] d by (simp add: m)
qed

text \<open>
  \<open>binarySearch\<close> copies the size of the cache into a \<open>__u16\<close>, searches between 0 and
  \<open>size - 1\<close>, and returns \<open>do_div(left, size)\<close>, the remainder.
\<close>

definition binarySearch :: "tt_send_info \<Rightarrow> u64 \<Rightarrow> u16 exec" where
  "binarySearch si modTime =
     (let sz = (ucast (cache_size (send_cache si)) :: u16) in
      exec_bind (binarySearch_loop (send_times (send_cache si)) modTime 0 (sz - 1)) (\<lambda>left.
        if base32 (ucast sz) = 0 then Fault DivideByZero
        else Done (ucast (snd (do_div (ucast left) (ucast sz))))))"

text \<open>
  \<open>get_next_time\<close>: the result is (\<open>*wait_time\<close>, \<open>*flow_id\<close>, \<open>*send_time\<close>). The first
  \<open>do_div\<close> leaves the quotient in \<open>cur_time\<close>, and the last statement adds that value.
\<close>

definition get_next_time :: "tt_send_info \<Rightarrow> u64 \<Rightarrow> (u64 \<times> u16 \<times> u64) exec" where
  "get_next_time si cur_time =
     (let cache = send_cache si in
      if base32 (macro_period si) = 0 then Fault DivideByZero
      else
        let cur_time1 = fst (do_div cur_time (macro_period si));
            mod_time = snd (do_div cur_time (macro_period si)) in
        exec_bind (binarySearch si mod_time) (\<lambda>idx.
          if base32 (cache_size cache) = 0 then Fault DivideByZero
          else
            let next_idx = (ucast (snd (do_div (ucast (idx + 1)) (cache_size cache))) :: u16) in
            exec_bind (rd (flow_ids cache) (unat idx)) (\<lambda>fid.
            exec_bind (rd (send_times cache) (unat next_idx)) (\<lambda>tn.
            exec_bind (rd (send_times cache) (unat idx)) (\<lambda>ti.
              let wait_time = (if next_idx = 0 then tn + macro_period si - ti else tn - ti);
                  send_time = (if mod_time > ti then macro_period si - mod_time + ti
                               else ti - mod_time)
              in Done (wait_time, fid, cur_time1 + send_time))))))"

text \<open>
  The lookup as the specification words it, over unbounded numbers, for comparison:
  the greatest index whose time is at most \<open>t mod macro_period\<close>, or \<open>size - 1\<close> when
  there is none.
\<close>

definition spec_idx :: "nat list \<Rightarrow> nat \<Rightarrow> nat" where
  "spec_idx ts m =
     (case filter (\<lambda>i. ts ! i \<le> m) [0..<length ts] of
        [] \<Rightarrow> length ts - 1
      | j # js \<Rightarrow> last (j # js))"

definition spec_next :: "nat \<Rightarrow> nat list \<Rightarrow> nat list \<Rightarrow> nat \<Rightarrow> nat \<times> nat \<times> nat" where
  "spec_next macro ts fs t =
     (let m = t mod macro; idx = spec_idx ts m; nxt = (idx + 1) mod length ts in
      ((if nxt = 0 then ts ! nxt + macro - ts ! idx else ts ! nxt - ts ! idx),
       fs ! idx,
       t + nat ((int (ts ! idx) - int m) mod int macro)))"

section \<open>TT header codec (datapath/tt.c)\<close>

text \<open>
  A 16-bit field in memory is two bytes whose order depends on the host; \<open>htons\<close> turns
  a host value into the value whose bytes in memory are in network order. The host's
  byte order is the parameter \<open>e\<close>.
\<close>

datatype endian = LittleEndian | BigEndian

definition cpu_bytes16 :: "endian \<Rightarrow> u16 \<Rightarrow> u8 list" where
  "cpu_bytes16 e v =
     (case e of
        LittleEndian \<Rightarrow> [ucast v, ucast (drop_bit 8 v)]
      | BigEndian \<Rightarrow> [ucast (drop_bit 8 v), ucast v])"

definition cpu_load16 :: "endian \<Rightarrow> u8 list \<Rightarrow> u16" where
  "cpu_load16 e bs =
     (case e of
        LittleEndian \<Rightarrow> word_cat (bs ! 1) (bs ! 0)
      | BigEndian \<Rightarrow> word_cat (bs ! 0) (bs ! 1))"

definition htons :: "endian \<Rightarrow> u16 \<Rightarrow> u16" where
  "htons e v =
     (case e of
        LittleEndian \<Rightarrow> word_cat (ucast v :: u8) (ucast (drop_bit 8 v) :: u8)
      | BigEndian \<Rightarrow> v)"

text \<open>
  The part of \<open>struct sk_buff\<close> the codec uses. \<open>head\<close> is the linear buffer;
  \<open>skb_data\<close> and \<open>mac_header\<close> are offsets into it (the headroom is \<open>skb_data\<close> bytes),
  \<open>skb_len\<close> is the number of frame bytes from \<open>skb_data\<close> on.
\<close>

record sk_buff =
  head :: "u8 list"
  skb_data :: nat
  skb_len :: nat
  mac_header :: nat
  mac_len :: nat
  cloned :: bool

text \<open>
  Modelled from the spec: the constant \<open>TT_HLEN\<close>, whose header tt.h is not among the
  sources; the specification gives \<open>TT_HLEN = 4\<close>. \<open>ETH_HLEN\<close> and \<open>ETH_P_IP\<close> are the
  kernel's constants. The EtherType \<open>ETH_P_TT\<close> has no known value and is the parameter
  \<open>eth_tt\<close> of the functions that use it.
\<close>

definition TT_HLEN :: nat where
  "TT_HLEN = 4"

definition ETH_HLEN :: nat where
  "ETH_HLEN = 14"

definition ETH_P_IP :: u16 where
  "ETH_P_IP = 0x0800"

text \<open>Reads and writes of a run of bytes, and \<open>memmove\<close>, with the bounds made explicit.\<close>

definition rd_bytes :: "u8 list \<Rightarrow> nat \<Rightarrow> nat \<Rightarrow> u8 list exec" where
  "rd_bytes b off n =
     (if off + n \<le> length b then Done (take n (drop off b))
      else Fault (OutOfBounds (off + n)))"

definition wr_bytes :: "u8 list \<Rightarrow> nat \<Rightarrow> u8 list \<Rightarrow> u8 list exec" where
  "wr_bytes b off bs =
     (if off + length bs \<le> length b
      then Done (take off b @ bs @ drop (off + length bs) b)
      else Fault (OutOfBounds (off + length bs)))"

definition memmove :: "u8 list \<Rightarrow> nat \<Rightarrow> nat \<Rightarrow> nat \<Rightarrow> u8 list exec" where
  "memmove b dst src n = exec_bind (rd_bytes b src n) (wr_bytes b dst)"

text \<open>
  The kernel helpers \<open>skb_cow_head\<close> and \<open>skb_ensure_writable\<close>, by their contract.
  \<open>skb_cow_head\<close> leaves a buffer with enough headroom and an unshared header alone;
  otherwise it reallocates the head, with the missing headroom rounded up to a multiple
  of \<open>pad\<close>, or fails when the allocation does (\<open>ok = False\<close>). \<open>skb_ensure_writable\<close>
  fails when the frame is shorter than \<open>write_len\<close> or when a shared buffer cannot be
  copied.
\<close>

definition skb_cow_head :: "bool \<Rightarrow> nat \<Rightarrow> sk_buff \<Rightarrow> nat \<Rightarrow> sk_buff option" where
  "skb_cow_head ok pad skb headroom =
     (let delta = headroom - skb_data skb;
          nhead = ((delta + pad - 1) div pad) * pad in
      if delta = 0 \<and> cloned skb = False then Some skb
      else if ok then
        Some (skb\<lparr>head := replicate nhead 0 @ head skb,
                  skb_data := skb_data skb + nhead,
                  mac_header := mac_header skb + nhead,
                  cloned := False\<rparr>)
      else None)"

definition skb_ensure_writable :: "bool \<Rightarrow> sk_buff \<Rightarrow> nat \<Rightarrow> sk_buff option" where
  "skb_ensure_writable ok skb write_len =
     (if write_len > skb_len skb then None
      else if cloned skb then (if ok then Some (skb\<lparr>cloned := False\<rparr>) else None)
      else Some skb)"

definition eth_p_tt :: "endian \<Rightarrow> u16 \<Rightarrow> u16 \<Rightarrow> bool" where
  "eth_p_tt e eth_tt eth_type = (eth_type = htons e eth_tt)"

definition is_tt_packet :: "endian \<Rightarrow> u16 \<Rightarrow> sk_buff \<Rightarrow> bool exec" where
  "is_tt_packet e eth_tt skb =
     exec_bind (rd_bytes (head skb) (mac_header skb + 12) 2)
       (\<lambda>bs. Done (eth_p_tt e eth_tt (cpu_load16 e bs)))"

text \<open>
  \<open>push_tt\<close>: \<open>skb_push\<close>, the \<open>memmove\<close> of the MAC header, \<open>skb_reset_mac_header\<close>, then
  the three stores. \<open>fid\<close> is the host value of \<open>*flow_id\<close>. The last store is
  \<open>tt_hdr->len = skb->len - 4\<close>, a plain assignment to the 16-bit field, after \<open>skb_push\<close>
  has added the four bytes to \<open>skb->len\<close>.
\<close>

definition push_tt :: "endian \<Rightarrow> bool \<Rightarrow> nat \<Rightarrow> u16 \<Rightarrow> sk_buff \<Rightarrow> u16
    \<Rightarrow> (errno option \<times> sk_buff) exec" where
  "push_tt e ok pad eth_tt skb fid =
     (case skb_cow_head ok pad skb TT_HLEN of
        None \<Rightarrow> Done (Some ENOMEM, skb)
      | Some s1 \<Rightarrow>
          let s2 = s1\<lparr>skb_data := skb_data s1 - TT_HLEN, skb_len := skb_len s1 + TT_HLEN\<rparr>
          in if mac_header s2 < TT_HLEN then Fault (OutOfBounds 0)
             else
               exec_bind (memmove (head s2) (mac_header s2 - TT_HLEN) (mac_header s2)
                            (mac_len s2)) (\<lambda>b1.
               let mh = skb_data s2 in
               exec_bind (wr_bytes b1 (mh + 12) (cpu_bytes16 e (htons e eth_tt))) (\<lambda>b2.
               exec_bind (wr_bytes b2 (mh + mac_len s2) (cpu_bytes16 e fid)) (\<lambda>b3.
               exec_bind (wr_bytes b3 (mh + mac_len s2 + 2)
                            (cpu_bytes16 e (of_nat (skb_len s2) - 4))) (\<lambda>b4.
                 Done (None, s2\<lparr>head := b4, mac_header := mh\<rparr>))))))"

text \<open>
  \<open>pop_tt\<close>: the \<open>memmove\<close> of the MAC header, \<open>__skb_pull\<close>, \<open>skb_reset_mac_header\<close>,
  and the store of \<open>htons(ETH_P_IP)\<close> into the \<open>h_proto\<close> field of the header that ends
  where the TT header began (\<open>skb_tt_header(skb) - ETH_HLEN\<close>).
\<close>

definition pop_tt :: "endian \<Rightarrow> bool \<Rightarrow> sk_buff \<Rightarrow> (errno option \<times> sk_buff) exec" where
  "pop_tt e ok skb =
     (case skb_ensure_writable ok skb (mac_len skb + TT_HLEN) of
        None \<Rightarrow> Done (Some ENOMEM, skb)
      | Some s1 \<Rightarrow>
          exec_bind (memmove (head s1) (mac_header s1 + TT_HLEN) (mac_header s1)
                       (mac_len s1)) (\<lambda>b1.
          let s2 = s1\<lparr>skb_len := skb_len s1 - TT_HLEN, skb_data := skb_data s1 + TT_HLEN\<rparr>;
              mh = skb_data s2
          in if mh + mac_len s2 < ETH_HLEN then Fault (OutOfBounds 0)
             else
               exec_bind (wr_bytes b1 (mh + mac_len s2 - ETH_HLEN + 12)
                            (cpu_bytes16 e (htons e ETH_P_IP))) (\<lambda>b2.
                 Done (None, s2\<lparr>head := b2, mac_header := mh\<rparr>))))"

text \<open>
  An IPv4 frame as the datapath hands it to the codec: the data starts at the MAC
  header, the MAC header is a plain Ethernet header, the frame lies inside the buffer,
  and its EtherType field is 0x0800.
\<close>

definition ipv4_frame :: "sk_buff \<Rightarrow> bool" where
  "ipv4_frame skb =
     (mac_header skb = skb_data skb \<and> mac_len skb = ETH_HLEN \<and> ETH_HLEN \<le> skb_len skb
      \<and> skb_data skb + skb_len skb \<le> length (head skb)
      \<and> take 2 (drop (skb_data skb + 12) (head skb)) = [0x08, 0x00])"

text \<open>The four bytes that follow the MAC header.\<close>

definition tt_header_bytes :: "sk_buff \<Rightarrow> u8 list" where
  "tt_header_bytes skb = take 4 (drop (mac_header skb + mac_len skb) (head skb))"

text \<open>
  Scenario S3: a 100-byte frame from aa:bb:cc:dd:ee:ff to 11:22:33:44:55:66 with
  EtherType 0x0800 and four bytes of headroom, and the same frame after \<open>push_tt\<close> with
  flow_id 0x0042, as a function of the EtherType and of the two bytes of the length
  field.
\<close>

definition s3_frame :: sk_buff where
  "s3_frame =
     \<lparr>head = replicate 4 0
              @ [0x11, 0x22, 0x33, 0x44, 0x55, 0x66, 0xaa, 0xbb, 0xcc, 0xdd, 0xee, 0xff]
              @ [0x08, 0x00] @ replicate 86 0,
      skb_data = 4, skb_len = 100, mac_header = 4, mac_len = 14, cloned = False\<rparr>"

definition s3_pushed :: "u16 \<Rightarrow> u8 list \<Rightarrow> sk_buff" where
  "s3_pushed eth_tt len_bytes =
     \<lparr>head = [0x11, 0x22, 0x33, 0x44, 0x55, 0x66, 0xaa, 0xbb, 0xcc, 0xdd, 0xee, 0xff]
              @ [ucast (drop_bit 8 eth_tt), ucast eth_tt] @ [0x00, 0x42] @ len_bytes
              @ replicate 86 0,
      skb_data = 0, skb_len = 104, mac_header = 0, mac_len = 14, cloned = False\<rparr>"

text \<open>The periods (\<open>circle\<close>) of the entries present in a list of slots, in slot order.\<close>

definition periods :: "tt_table_item option list \<Rightarrow> nat list" where
  "periods items = concat (map (\<lambda>x. case x of None \<Rightarrow> [] | Some it \<Rightarrow> [unat (circle it)]) items)"

text \<open>Three entries whose periods are 2^32 - 1, 2^32 - 2 and 2^32 - 3 nanoseconds.\<close>

definition overflow_items :: "tt_table_item option list" where
  "overflow_items =
     [Some \<lparr>flow_id = 0, buffer_id = 0, circle = 4294967295, len = 0, time = 0\<rparr>,
      Some \<lparr>flow_id = 1, buffer_id = 0, circle = 4294967294, len = 0, time = 0\<rparr>,
      Some \<lparr>flow_id = 2, buffer_id = 0, circle = 4294967293, len = 0, time = 0\<rparr>]"

text \<open>Scenario S2: the send cache of the single flow (id 7, offset 250, period 1000).\<close>

definition s2_send_info :: tt_send_info where
  "s2_send_info =
     \<lparr>macro_period = 1000,
      send_cache = \<lparr>send_times = [250], flow_ids = [7], cache_size = 1\<rparr>,
      advance_time = None\<rparr>"

text \<open>A send cache with three instants in a macro period of 1500.\<close>

definition three_instants :: tt_send_info where
  "three_instants =
     \<lparr>macro_period = 1500,
      send_cache = \<lparr>send_times = [0, 100, 300], flow_ids = [10, 11, 12], cache_size = 3\<rparr>,
      advance_time = None\<rparr>"

text \<open>The two-flow schedule S1 as the table that two inserts into an empty port leave.\<close>

definition s1_table :: tt_table where
  "s1_table =
     \<lparr>tt_count = 0,
      tt_items = [Some \<lparr>flow_id = 0, buffer_id = 0, circle = 300, len = 0, time = 0\<rparr>,
                  Some \<lparr>flow_id = 1, buffer_id = 0, circle = 500, len = 0, time = 100\<rparr>,
                  None, None]\<rparr>"

text \<open>A table whose slots are all empty, as \<open>tt_table_alloc\<close> returns it.\<close>

definition empty_table :: tt_table where
  "empty_table = \<lparr>tt_count = 0, tt_items = [None, None, None, None]\<rparr>"

section \<open>Running the model\<close>

declare gcd64.simps [simp del]
declare binarySearch_loop.simps [simp del]

lemma u16_minus_1: "unat (- 1 :: u16) = 65535"
  by (simp add: unsigned_minus_1_eq_mask mask_eq_exp_minus_1)

lemma ucast_minus_1: "(ucast (- 1 :: u64) :: u16) = - 1"
  by (rule bit_word_eqI) (simp add: bit_simps)

lemma replicate_4: "replicate 4 x = [x, x, x, x]"
  by (simp add: numeral_eq_Suc)

lemma replicate_8: "replicate 8 x = [x, x, x, x, x, x, x, x]"
  by (simp add: numeral_eq_Suc)

text \<open>One step of each loop when the budget is written \<open>n + k\<close> for a numeral \<open>k\<close>.\<close>

lemma scan_l_fuel:
  "scan_l (n + numeral k) a l right =
     exec_bind (rd a (unat l)) (\<lambda>x. exec_bind (rd a (unat right)) (\<lambda>p.
       if x \<le> p then scan_l (n + pred_numeral k) a (l + 1) right else Done l))"
  by (simp add: numeral_eq_Suc)

lemma scan_r_fuel:
  "scan_r (n + numeral k) a r right =
     exec_bind (rd a (unat r)) (\<lambda>x. exec_bind (rd a (unat right)) (\<lambda>p.
       if x > p then scan_r (n + pred_numeral k) a (r - 1) right else Done r))"
  by (simp add: numeral_eq_Suc)

lemma part_loop_fuel:
  "part_loop fuel (n + numeral k) st l r right =
     (if l < r then
        exec_bind (scan_l fuel (fst st) l right) (\<lambda>l1.
        exec_bind (scan_r fuel (fst st) r right) (\<lambda>r1.
          if l1 < r1
          then exec_bind (swap_both st l1 r1)
                 (\<lambda>st1. part_loop fuel (n + pred_numeral k) st1 l1 r1 right)
          else part_loop fuel (n + pred_numeral k) st l1 r1 right))
      else Done (st, l))"
  by (simp add: numeral_eq_Suc)

lemma sort_c_fuel:
  "sort_c fuel (n + numeral k) st left right =
     (if left \<ge> right then Done st
      else
        exec_bind (pivot_to_right st left right) (\<lambda>st1.
        exec_bind (part_loop fuel fuel st1 left (right - 1) right) (\<lambda>(st2, l).
        exec_bind (swap_both st2 l right) (\<lambda>st3.
        exec_bind (sort_c fuel (n + pred_numeral k) st3 left (l - 1)) (\<lambda>st4.
          sort_c fuel (n + pred_numeral k) st4 (l + 1) right)))))"
  by (simp add: numeral_eq_Suc)

lemma fill_item_fuel:
  "fill_item (n + numeral k) st j offset m it =
     (if offset < m then
        exec_bind (wr (fst st) (unat j) offset) (\<lambda>ts.
        exec_bind (wr (snd st) (unat j) (flow_id it)) (\<lambda>fs.
          fill_item (n + pred_numeral k) (ts, fs) (j + 1) (offset + circle it) m it))
      else Done (st, j))"
  by (simp add: numeral_eq_Suc)

lemmas fuel_simps = scan_l_fuel scan_r_fuel part_loop_fuel sort_c_fuel fill_item_fuel

lemmas run_simps = pivot_to_right_def swap_both_def swap_def rd_def wr_def exec_bind_def
  u16_minus_1 ucast_minus_1 replicate_8

section \<open>Control-plane assembly: the end of a session\<close>

text \<open>
  C1. Scenario S4 of the specification, second half: a session is begun for three
  entries, two entries are added, and the session is ended. The specification asks for
  the error Incomplete and a session that stays MUTABLE. \<open>onf_tt_flow_receive_end\<close>
  tests the count but does nothing in that branch: the session becomes CONST with two
  of three entries, and the value returned is the never-assigned local \<open>e\<close>.
\<close>

theorem receive_end_commits_incomplete_session:
  "exec_bind (onf_tt_flow_receive_start e
       (Some \<lparr>expect_flows = 0, recv_flows = 0, max_flows = 255, state = s0,
              entry_list = []\<rparr>) 3)
     (\<lambda>(e1, t1). exec_bind (onf_tt_table_add_entry e (Some t1) a)
     (\<lambda>(e2, t2). exec_bind (onf_tt_table_add_entry e (Some t2) b)
     (\<lambda>(e3, t3). onf_tt_flow_receive_end e (Some t3))))
   = Done (e, \<lparr>expect_flows = 3, recv_flows = 2, max_flows = 255, state = TTS_CONST,
               entry_list = [a, b]\<rparr>)"
  by (simp add: onf_tt_flow_receive_start_def onf_tt_table_add_entry_def
        onf_tt_flow_receive_end_def exec_bind_def)

text \<open>Whatever the counts are, a session that exists ends in state CONST.\<close>

lemma receive_end_always_const:
  "onf_tt_flow_receive_end e (Some t) = Done (e, t\<lparr>state := TTS_CONST\<rparr>)"
  by (simp add: onf_tt_flow_receive_end_def)

section \<open>Flow table: insert, lookup, count\<close>

lemma tt_table_alloc_4: "tt_table_alloc 4 True 4 = Some empty_table"
  by (simp add: tt_table_alloc_def empty_table_def replicate_4)

text \<open>
  C4. With \<open>TT_TABLE_SIZE_MIN = 4\<close>, a fresh table has capacity 4. Inserting an entry
  whose flow_id is 4, the capacity, does not grow the table, because the test is
  \<open>flow_id > max\<close>: the store goes to slot 4 of an array of 4 slots, and a lookup of 4
  in the table finds nothing.
\<close>

theorem insert_at_capacity_out_of_bounds:
  "tt_table_item_insert 4 True (Some empty_table) (new\<lparr>flow_id := 4\<rparr>)
     = Fault (OutOfBounds 4) \<and>
   tt_max empty_table = 4 \<and>
   tt_table_lookup (Some empty_table) 4 = None"
  by (simp add: tt_table_item_insert_def insert_store_def exec_bind_def wr_def tt_max_def
        tt_table_lookup_def empty_table_def)

text \<open>
  C5. Inserting into a port that has no table yet gives a table with one occupied slot
  whose \<open>count\<close> is 0: \<open>tt_table_item_insert\<close> never increments it.
\<close>

theorem insert_leaves_count_zero:
  "tt_table_item_insert 4 True None (new\<lparr>flow_id := 0\<rparr>)
     = Done (Some \<lparr>tt_count = 0, tt_items = [Some (new\<lparr>flow_id := 0\<rparr>), None, None, None]\<rparr>) \<and>
   tt_table_num_items
     \<lparr>tt_count = 0, tt_items = [Some (new\<lparr>flow_id := 0\<rparr>), None, None, None]\<rparr> = 0 \<and>
   occupied \<lparr>tt_count = 0, tt_items = [Some (new\<lparr>flow_id := 0\<rparr>), None, None, None]\<rparr> = 1"
  by (simp add: tt_table_item_insert_def tt_table_realloc_def tt_table_alloc_def
        insert_store_def exec_bind_def wr_def replicate_4 tt_table_num_items_def occupied_def)

subsection \<open>Insert, delete and lookup in general\<close>

text \<open>The copy that \<open>tt_table_item_insert\<close> makes of its argument, field by field, is the argument.\<close>

lemma item_copy:
  "\<lparr>flow_id = flow_id new, buffer_id = buffer_id new, circle = circle new,
    len = len new, time = time new\<rparr> = (new :: tt_table_item)"
  by (cases new) simp

text \<open>No path of an insert changes \<open>count\<close>: the store leaves it, the reallocation carries
  the old value over, a first allocation sets it to 0.\<close>

lemma insert_store_count:
  "insert_store t k item = Done (Some t') \<Longrightarrow> tt_count t' = tt_count t"
  by (auto simp: insert_store_def exec_bind_def wr_def split: if_splits)

lemma realloc_count:
  "tt_table_realloc tmin ok (Some t) sz = Done (Some t') \<Longrightarrow> tt_count t' = tt_count t"
  by (auto simp: tt_table_realloc_def tt_table_alloc_def exec_bind_def
           split: if_splits exec.splits)

lemma realloc_fresh_count:
  "tt_table_realloc tmin ok None sz = Done (Some t') \<Longrightarrow> tt_count t' = 0"
  by (auto simp: tt_table_realloc_def tt_table_alloc_def split: if_splits)

lemma insert_keeps_count:
  assumes "tt_table_item_insert tmin ok (Some t) new = Done (Some t')"
  shows "tt_count t' = tt_count t"
proof (cases "ok \<and> uint (flow_id new) > tt_max t")
  case True
  then obtain r where r: "tt_table_realloc tmin ok (Some t) (uint (flow_id new) + tmin) = Done (Some r)"
    and s: "insert_store r (flow_id new) new = Done (Some t')"
    using assms
    by (auto simp: tt_table_item_insert_def Let_def exec_bind_def item_copy
             split: if_splits exec.splits option.splits)
  show ?thesis using realloc_count [OF r] insert_store_count [OF s] by simp
next
  case False
  then have "insert_store t (flow_id new) new = Done (Some t')"
    using assms
    by (auto simp: tt_table_item_insert_def Let_def item_copy split: if_splits)
  then show ?thesis by (rule insert_store_count)
qed

lemma insert_first_count:
  assumes "tt_table_item_insert tmin ok None new = Done (Some t')"
  shows "tt_count t' = 0"
proof -
  obtain r where r: "tt_table_realloc tmin ok None (uint (flow_id new) + tmin) = Done (Some r)"
    and s: "insert_store r (flow_id new) new = Done (Some t')"
    using assms
    by (auto simp: tt_table_item_insert_def Let_def exec_bind_def item_copy
             split: if_splits exec.splits option.splits)
  show ?thesis using realloc_fresh_count [OF r] insert_store_count [OF s] by simp
qed

text \<open>The store past the end happens for every table and every entry whose \<open>flow_id\<close>
  equals the capacity.\<close>

lemma insert_capacity_fault:
  assumes "uint (flow_id new) = tt_max t"
  shows "tt_table_item_insert tmin True (Some t) new = Fault (OutOfBounds (unat (flow_id new)))"
proof -
  have "nat (uint (flow_id new)) = nat (int (length (tt_items t)))"
    using assms by (simp only: tt_max_def)
  then have "unat (flow_id new) = length (tt_items t)"
    by (simp only: unat_eq_nat_uint nat_int)
  then show ?thesis
    using assms
    by (simp add: tt_table_item_insert_def insert_store_def exec_bind_def wr_def item_copy)
qed

text \<open>Below the capacity an insert stores the entry in place and a lookup finds it.\<close>

lemma insert_in_range:
  assumes "uint (flow_id new) < tt_max t"
  shows "\<exists>t'. tt_table_item_insert tmin True (Some t) new = Done (Some t') \<and>
           tt_table_lookup (Some t') (flow_id new) = Some new \<and> tt_max t' = tt_max t"
proof -
  have "int (unat (flow_id new)) < int (length (tt_items t))"
    using assms by (simp only: tt_max_def uint_nat)
  then have "unat (flow_id new) < length (tt_items t)"
    by (simp only: of_nat_less_iff)
  then show ?thesis
    using assms
    by (simp add: tt_table_item_insert_def insert_store_def exec_bind_def wr_def
          tt_table_lookup_def tt_max_def item_copy)
qed

text \<open>The copy loop of \<open>tt_table_realloc\<close> stays inside a new array that is at least as long
  as the old one, and leaves empty what was empty.\<close>

lemma realloc_copy_ok:
  "i + length xs \<le> length new \<Longrightarrow>
   \<exists>r. realloc_copy xs i new = Done r \<and> length r = length new"
proof (induction xs arbitrary: i new)
  case Nil
  then show ?case by simp
next
  case (Cons x xs)
  show ?case
  proof (cases x)
    case None
    then show ?thesis using Cons.IH [of "Suc i" new] Cons.prems by simp
  next
    case (Some it)
    have "Suc i + length xs \<le> length (new[i := Some it])" using Cons.prems by simp
    then obtain r where "realloc_copy xs (Suc i) (new[i := Some it]) = Done r"
      "length r = length (new[i := Some it])"
      using Cons.IH [of "Suc i" "new[i := Some it]"] by blast
    then show ?thesis using Some Cons.prems by (simp add: exec_bind_def wr_def)
  qed
qed

lemma realloc_copy_keeps_none:
  "realloc_copy xs i new = Done r \<Longrightarrow> new ! p = None \<Longrightarrow>
   (p < i \<or> i + length xs \<le> p \<or> xs ! (p - i) = None) \<Longrightarrow> r ! p = None"
proof (induction xs arbitrary: i new)
  case Nil
  then show ?case by simp
next
  case (Cons x xs)
  show ?case
  proof (cases x)
    case None
    have c: "p < Suc i \<or> Suc i + length xs \<le> p \<or> xs ! (p - Suc i) = None"
    proof (cases "p = i")
      case True then show ?thesis by simp
    next
      case False
      then show ?thesis using Cons.prems(3) by (cases "p < i") (auto simp: nth_Cons')
    qed
    show ?thesis using Cons.IH [OF _ Cons.prems(2) c] Cons.prems(1) None by simp
  next
    case (Some it)
    have pi: "p \<noteq> i" using Cons.prems(3) Some by (auto simp: nth_Cons')
    have run: "realloc_copy xs (Suc i) (new[i := Some it]) = Done r" and il: "i < length new"
      using Cons.prems(1) Some by (auto simp: exec_bind_def wr_def split: if_splits)
    have n: "(new[i := Some it]) ! p = None" using Cons.prems(2) pi by simp
    have c: "p < Suc i \<or> Suc i + length xs \<le> p \<or> xs ! (p - Suc i) = None"
      using Cons.prems(3) pi by (cases "p < i") (auto simp: nth_Cons')
    show ?thesis using Cons.IH [OF run n c] .
  qed
qed

text \<open>Above the capacity an insert grows the table to \<open>flow_id + TT_TABLE_SIZE_MIN\<close> and a
  lookup finds the entry.\<close>

lemma insert_grows:
  assumes big: "tt_max t < uint (flow_id new)" and tmin: "0 < tmin"
  shows "\<exists>t'. tt_table_item_insert tmin True (Some t) new = Done (Some t') \<and>
           tt_max t' = uint (flow_id new) + tmin \<and>
           tt_table_lookup (Some t') (flow_id new) = Some new"
proof -
  let ?k = "flow_id new"
  let ?n = "nat (uint ?k + tmin)"
  have k0: "0 \<le> uint ?k" by simp
  have mx: "max tmin (uint ?k + tmin) = uint ?k + tmin" using k0 by simp
  have alloc: "tt_table_alloc tmin True (uint ?k + tmin)
               = Some \<lparr>tt_count = 0, tt_items = replicate ?n None\<rparr>"
    by (simp add: tt_table_alloc_def mx)
  have "int (length (tt_items t)) < uint ?k + tmin" using big tmin by (simp add: tt_max_def)
  then have "0 + length (tt_items t) \<le> length (replicate ?n (None :: tt_table_item option))"
    by simp
  then obtain r where r: "realloc_copy (tt_items t) 0 (replicate ?n None) = Done r"
    "length r = length (replicate ?n (None :: tt_table_item option))"
    using realloc_copy_ok [of 0 "tt_items t" "replicate ?n None"] by blast
  have lr: "length r = ?n" using r(2) by simp
  have re: "tt_table_realloc tmin True (Some t) (uint ?k + tmin)
            = Done (Some \<lparr>tt_count = tt_count t, tt_items = r\<rparr>)"
    using alloc r(1) by (simp add: tt_table_realloc_def exec_bind_def)
  have "?n = nat (uint ?k) + nat tmin" using k0 tmin by (simp add: nat_add_distrib)
  then have "unat ?k < ?n" using tmin by simp
  then have kl: "unat ?k < length r" using lr by simp
  have st: "insert_store \<lparr>tt_count = tt_count t, tt_items = r\<rparr> ?k new
            = Done (Some \<lparr>tt_count = tt_count t, tt_items = r[unat ?k := Some new]\<rparr>)"
    using kl by (simp add: insert_store_def exec_bind_def wr_def)
  have run: "tt_table_item_insert tmin True (Some t) new
             = Done (Some \<lparr>tt_count = tt_count t, tt_items = r[unat ?k := Some new]\<rparr>)"
    using big re st by (simp add: tt_table_item_insert_def exec_bind_def item_copy)
  have m: "tt_max \<lparr>tt_count = tt_count t, tt_items = r[unat ?k := Some new]\<rparr> = uint ?k + tmin"
    using lr tmin k0 by (simp add: tt_max_def)
  have "uint ?k < uint ?k + tmin" using tmin by simp
  then have l: "tt_table_lookup (Some \<lparr>tt_count = tt_count t, tt_items = r[unat ?k := Some new]\<rparr>) ?k
                = Some new"
    using kl m by (simp add: tt_table_lookup_def)
  show ?thesis using run m l by blast
qed

text \<open>After a delete that returns a table, a lookup of the deleted id finds nothing, also
  when the table was shrunk. A delete of an id outside the table returns NULL, and a
  lookup in no table finds nothing.\<close>

lemma realloc_copy_length:
  "realloc_copy xs i new = Done r \<Longrightarrow> length r = length new"
proof (induction xs arbitrary: i new)
  case Nil
  then show ?case by simp
next
  case (Cons x xs)
  show ?case
  proof (cases x)
    case None
    then show ?thesis using Cons by simp
  next
    case (Some it)
    have "realloc_copy xs (Suc i) (new[i := Some it]) = Done r"
      using Cons.prems Some by (auto simp: exec_bind_def wr_def split: if_splits)
    then have "length r = length (new[i := Some it])" by (rule Cons.IH)
    then show ?thesis by simp
  qed
qed

lemma realloc_keeps_none:
  assumes re: "tt_table_realloc tmin ok (Some t1) sz = Done (Some r)"
    and none: "tt_items t1 ! unat k = None"
  shows "tt_table_lookup (Some r) k = None"
proof (cases "uint k < tt_max r")
  case False
  then show ?thesis by (simp add: tt_table_lookup_def)
next
  case True
  let ?new = "replicate (nat (max tmin sz)) (None :: tt_table_item option)"
  have cp: "realloc_copy (tt_items t1) 0 ?new = Done (tt_items r)"
    using re
    by (auto simp: tt_table_realloc_def tt_table_alloc_def exec_bind_def
             split: if_splits exec.splits)
  have "int (unat k) < int (length (tt_items r))"
    using True by (simp only: tt_max_def uint_nat)
  then have "unat k < length (tt_items r)" by (simp only: of_nat_less_iff)
  then have pl: "unat k < length ?new" using realloc_copy_length [OF cp] by simp
  then have n: "?new ! unat k = None" by simp
  have "tt_items r ! unat k = None"
    using realloc_copy_keeps_none [OF cp n] none by simp
  then show ?thesis using True by (simp add: tt_table_lookup_def)
qed

lemma delete_then_lookup_none:
  assumes "tt_table_delete_item tmin ok cur k = Done r"
  shows "tt_table_lookup r k = None"
proof (cases cur)
  case None
  then show ?thesis using assms by (simp add: tt_table_delete_item_def tt_table_lookup_def)
next
  case (Some t)
  show ?thesis
  proof (cases "uint k \<ge> tt_max t")
    case True
    then show ?thesis
      using assms Some by (simp add: tt_table_delete_item_def tt_table_lookup_def)
  next
    case False
    define t1 where "t1 = (case tt_items t ! unat k of
                        None \<Rightarrow> t
                      | Some it \<Rightarrow> t\<lparr>tt_items := (tt_items t)[unat k := None],
                                     tt_count := tt_count t - 1\<rparr>)"
    have "int (unat k) < int (length (tt_items t))"
      using False by (simp only: tt_max_def uint_nat not_le)
    then have kl: "unat k < length (tt_items t)" by (simp only: of_nat_less_iff)
    have none: "tt_items t1 ! unat k = None"
      using kl by (simp add: t1_def split: option.splits)
    have mx: "tt_max t1 = tt_max t" by (simp add: t1_def tt_max_def split: option.splits)
    have l1: "tt_table_lookup (Some t1) k = None"
      using none False mx by (simp add: tt_table_lookup_def)
    have d: "tt_table_delete_item tmin ok (Some t) k =
             (if tt_max t1 \<ge> tmin * 2 \<and> tt_count t1 \<le> tt_max t1 div 3
              then exec_bind (tt_table_realloc tmin ok (Some t1) (tt_max t1 div 2))
                     (\<lambda>res. case res of None \<Rightarrow> Done (Some t1) | Some r \<Rightarrow> Done (Some r))
              else Done (Some t1))"
      unfolding t1_def tt_table_delete_item_def Let_def using False by simp
    show ?thesis
    proof (cases "tt_max t1 \<ge> tmin * 2 \<and> tt_count t1 \<le> tt_max t1 div 3")
      case False
      then have "r = Some t1" using assms Some d by auto
      then show ?thesis using l1 by simp
    next
      case True
      then have e: "exec_bind (tt_table_realloc tmin ok (Some t1) (tt_max t1 div 2))
                     (\<lambda>res. case res of None \<Rightarrow> Done (Some t1) | Some r \<Rightarrow> Done (Some r))
                    = Done r"
        using assms Some d by simp
      show ?thesis
      proof (cases "tt_table_realloc tmin ok (Some t1) (tt_max t1 div 2)")
        case (Fault x)
        then show ?thesis using e by (simp add: exec_bind_def)
      next
        case (Done res)
        show ?thesis
        proof (cases res)
          case None
          then have "r = Some t1" using e Done by (simp add: exec_bind_def)
          then show ?thesis using l1 by simp
        next
          case (Some r')
          then have "r = Some r'" using e Done by (simp add: exec_bind_def)
          moreover have "tt_table_lookup (Some r') k = None"
            using realloc_keeps_none [OF _ none] Done Some by simp
          ultimately show ?thesis by simp
        qed
      qed
    qed
  qed
qed

section \<open>Dispatcher: the sort and the schedule\<close>

text \<open>
  C10. Two instants 0 and 1, already in order. After the partition the pivot is at
  index 0 and \<open>sort\<close> calls itself on \<open>left = 0\<close>, \<open>right = l - 1\<close>, which is 65535 in a
  \<open>__u16\<close>; that call reads \<open>send_times[65535]\<close> of an array of two cells. Any budget
  that allows the two calls shows it.
\<close>

theorem sort_reads_outside_two_cells:
  "sort_c (Suc f) (Suc (Suc n)) ([0, 1], [x, y]) 0 1 = Fault (OutOfBounds 65535)"
proof -
  have pivot: "pivot_to_right ([0, 1], [x, y]) 0 1 = Done ([1, 0], [y, x])"
    by (simp add: run_simps)
  have part: "part_loop (Suc f) (Suc f) ([1, 0], [y, x]) 0 0 1 = Done (([1, 0], [y, x]), 0)"
    by simp
  have final: "swap_both ([1, 0], [y, x]) 0 1 = Done ([0, 1], [x, y])"
    by (simp add: run_simps)
  have left_call: "sort_c (Suc f) (Suc n) ([0, 1], [x, y]) 0 (- 1) = Fault (OutOfBounds 65535)"
    by (simp add: pivot_to_right_def rd_def exec_bind_def u16_minus_1)
  show ?thesis
    by (subst sort_c.simps)
       (simp add: pivot part final left_call exec_bind_def del: sort_c.simps)
qed

text \<open>
  The stages of \<open>dispatch\<close> on the two flows of scenario S1: the macro period, the
  number of instants, the arrays as filled, and the arrays as \<open>sort\<close> leaves them. In the
  call of \<open>sort\<close> on cells 2 to 4 the pivot 600 is in cell 4 and the scan
  \<open>while (send_times[l] <= send_times[right]) l++\<close> stops at \<open>l = 5\<close>, past \<open>right\<close>.
\<close>

lemma s1_macro: "macro_loop (tt_items s1_table) 1 = Done 1500"
  by (simp add: s1_table_def lcm64_def gcd64.simps do_div_def base32_def exec_bind_def)

lemma s1_size: "size_loop (tt_items s1_table) 1500 0 = Done 8"
  by (simp add: s1_table_def do_div_def base32_def)

lemma s1_fill:
  "fill_loop (f + 10) (tt_items s1_table) (replicate 8 0, replicate 8 0) 0 1500
   = Done (([0, 300, 600, 900, 1200, 100, 600, 1100], [0, 0, 0, 0, 0, 1, 1, 1]), 8)"
  by (simp add: s1_table_def fuel_simps run_simps)

lemma s1_scan_past_right:
  "part_loop (f + 10) (n + 2) ([0, 100, 600, 300, 600, 900, 1100, 1200], fs) 2 3 4
   = Done (([0, 100, 600, 300, 600, 900, 1100, 1200], fs), 5)"
  by (simp add: fuel_simps run_simps)

lemma s1_sort:
  "sort_c (f + 10) (f + 10)
     ([0, 300, 600, 900, 1200, 100, 600, 1100], [0, 0, 0, 0, 0, 1, 1, 1]) 0 7
   = Done ([0, 100, 300, 600, 900, 600, 1100, 1200], [0, 1, 0, 0, 0, 1, 1, 0])"
  by (simp add: fuel_simps run_simps)

text \<open>
  C3. Scenario S1: flows (id 0, offset 0, period 300) and (id 1, offset 100, period
  500). The dispatcher computes macro period 1500 and size 8 and returns success, but
  the times it installs are not ascending: 900 stands before the second 600. The inner
  scan of \<open>sort\<close> runs past \<open>right\<close> when every cell up to the pivot is at most the
  pivot, and the final swap then moves 900 into the segment. Every budget of at least 10
  steps gives this run.
\<close>

theorem dispatch_two_flow_schedule_unsorted:
  "dispatch (f + 10) True \<lparr>send_info = None, send_tt_table = Some s1_table,
                            hrtimer_flag = False\<rparr>
   = Done (None,
       \<lparr>send_info = Some
          \<lparr>macro_period = 1500,
           send_cache = \<lparr>send_times = [0, 100, 300, 600, 900, 600, 1100, 1200],
                         flow_ids = [0, 1, 0, 0, 0, 1, 1, 0], cache_size = 8\<rparr>,
           advance_time = None\<rparr>,
        send_tt_table = Some s1_table, hrtimer_flag = False\<rparr>)"
proof -
  have slots: "\<not> tt_max s1_table > 65535"
    by (simp add: s1_table_def tt_max_def)
  have last_index: "(ucast (8 - 1 :: u64) :: u16) = 7"
    by simp
  show ?thesis
    by (simp add: dispatch_def slots s1_macro s1_size s1_fill s1_sort last_index
          exec_bind_def)
qed

text \<open>
  C9. A port whose send table exists and has only empty slots. \<open>dispatch\<close> passes the
  NULL test, computes macro period 1 and size 0, and calls \<open>sort\<close> with
  \<open>right = size - 1\<close>, which is 65535 in a \<open>__u16\<close>: the first read is outside the empty
  arrays. No error code is returned, to \<open>ovs_vport_start_tt_schedule\<close> neither.
\<close>

theorem dispatch_empty_table_out_of_bounds:
  "dispatch (Suc f) True \<lparr>send_info = si, send_tt_table = Some empty_table,
                           hrtimer_flag = h\<rparr>
     = Fault (OutOfBounds 65535) \<and>
   ovs_vport_start_tt_schedule (Suc f) True adv
       \<lparr>send_info = si, send_tt_table = Some empty_table, hrtimer_flag = h\<rparr>
     = Fault (OutOfBounds 65535)"
proof -
  have slots: "\<not> tt_max empty_table > 65535"
    by (simp add: empty_table_def tt_max_def)
  have macro: "macro_loop (tt_items empty_table) 1 = Done 1"
    by (simp add: empty_table_def)
  have sz: "size_loop (tt_items empty_table) 1 0 = Done 0"
    by (simp add: empty_table_def)
  have fill: "fill_loop (Suc f) (tt_items empty_table) ([], []) 0 1 = Done (([], []), 0)"
    by (simp add: empty_table_def)
  have first_read: "sort_c (Suc f) (Suc f) ([], []) 0 (- 1) = Fault (OutOfBounds 65535)"
    by (simp add: pivot_to_right_def rd_def exec_bind_def u16_minus_1)
  have run: "dispatch (Suc f) True \<lparr>send_info = si, send_tt_table = Some empty_table,
                                   hrtimer_flag = b\<rparr>
             = Fault (OutOfBounds 65535)" for b
    by (simp add: dispatch_def slots macro sz fill ucast_minus_1 first_read exec_bind_def
          del: sort_c.simps)
  show ?thesis
    by (simp add: run ovs_vport_start_tt_schedule_def exec_bind_def)
qed

text \<open>A port without a send table is the failure that \<open>dispatch\<close> does report.\<close>

lemma dispatch_no_table:
  "dispatch fuel ok \<lparr>send_info = si, send_tt_table = None, hrtimer_flag = h\<rparr>
     = Done (Some EINVAL, \<lparr>send_info = si, send_tt_table = None, hrtimer_flag = h\<rparr>)"
  by (simp add: dispatch_def)

text \<open>The out-of-bounds read happens for every table of at most 65535 slots that are all
  empty: the three passes over the table do nothing, the size is 0.\<close>

lemma macro_loop_empty: "macro_loop (replicate n None) m = Done m"
  by (induction n) simp_all

lemma size_loop_empty: "size_loop (replicate n None) m sz = Done sz"
  by (induction n) simp_all

lemma fill_loop_empty: "fill_loop fuel (replicate n None) st k m = Done (st, k)"
  by (induction n) simp_all

lemma dispatch_all_empty:
  assumes "n \<le> 65535"
  shows "dispatch (Suc f) True
           \<lparr>send_info = si, send_tt_table = Some \<lparr>tt_count = c, tt_items = replicate n None\<rparr>,
            hrtimer_flag = h\<rparr>
         = Fault (OutOfBounds 65535)"
  using assms
  by (simp add: dispatch_def tt_max_def macro_loop_empty size_loop_empty fill_loop_empty
        run_simps)

text \<open>
  When \<open>dispatch\<close> returns 0, the macro period it stored is the result of the first loop
  over the table.
\<close>

lemma dispatch_macro_period:
  assumes "dispatch fuel ok vp = Done (None, vp')" and "send_tt_table vp = Some t"
  shows "\<exists>si. send_info vp' = Some si \<and> macro_loop (tt_items t) 1 = Done (macro_period si)"
  using assms
  by (auto simp: dispatch_def exec_bind_def
           split: if_splits exec.splits option.splits prod.splits)

text \<open>
  On a table of more than 65535 slots \<open>dispatch\<close> gives no result, whatever the budget:
  the \<open>__u16\<close> counter of the first loop never reaches \<open>max\<close>.
\<close>

lemma dispatch_large_table:
  assumes "send_tt_table vp = Some t" and "tt_max t > 65535"
    and "send_info vp \<noteq> None \<or> ok"
  shows "\<exists>x. dispatch fuel ok vp = Fault x"
  using assms
  by (auto simp: dispatch_def exec_bind_def split: exec.splits)

section \<open>TT header codec: bytes and layouts\<close>

lemma cat_split: "(word_cat (ucast (drop_bit 8 v) :: u8) (ucast v :: u8) :: u16) = v"
  by (rule bit_word_eqI) (auto simp: bit_simps)

lemma lo_cat: "(ucast (word_cat (a :: u8) (b :: u8) :: u16) :: u8) = b"
  by (rule bit_word_eqI) (auto simp: bit_simps)

lemma hi_cat: "(ucast (drop_bit 8 (word_cat (a :: u8) (b :: u8) :: u16)) :: u8) = a"
  by (rule bit_word_eqI) (auto simp: bit_simps)

lemma cpu_bytes16_htons: "cpu_bytes16 e (htons e v) = [ucast (drop_bit 8 v), ucast v]"
  by (cases e) (simp_all add: cpu_bytes16_def htons_def lo_cat hi_cat)

lemma cpu_load16_bytes16: "cpu_load16 e (cpu_bytes16 e v) = v"
  by (cases e) (simp_all add: cpu_bytes16_def cpu_load16_def cat_split)

lemma length_cpu_bytes16: "length (cpu_bytes16 e v) = 2"
  by (cases e) (simp_all add: cpu_bytes16_def)

lemma rd_bytes_mid:
  "length A = off \<Longrightarrow> length M = n \<Longrightarrow> rd_bytes (A @ M @ C) off n = Done M"
  by (simp add: rd_bytes_def)

lemma wr_bytes_mid:
  "length A = off \<Longrightarrow> length old = length bs \<Longrightarrow>
   wr_bytes (A @ old @ C) off bs = Done (A @ bs @ C)"
  by (simp add: wr_bytes_def)

lemma split_last4:
  assumes "4 \<le> length M"
  shows "\<exists>M1 M2. M = M1 @ M2 \<and> length M2 = 4 \<and> length M1 = length M - 4"
proof -
  have "M = take (length M - 4) M @ drop (length M - 4) M" by simp
  moreover have "length (drop (length M - 4) M) = 4" using assms by simp
  moreover have "length (take (length M - 4) M) = length M - 4" by simp
  ultimately show ?thesis by blast
qed

lemma memmove_down4:
  assumes "length H0 = h" "length H4 = 4" "length M = m" "4 \<le> m"
  shows "\<exists>T. length T = 4 \<and>
     memmove (H0 @ H4 @ M @ P) h (h + 4) m = Done (H0 @ M @ T @ P)"
proof -
  obtain M1 M2 where M: "M = M1 @ M2" and l2: "length M2 = 4" and l1: "length M1 = m - 4"
    using split_last4 [of M] assms by auto
  have r: "rd_bytes (H0 @ H4 @ M @ P) (h + 4) m = Done M"
    using rd_bytes_mid [of "H0 @ H4" "h + 4" M m P] assms by simp
  have "length (H4 @ M1) = length M" using assms l1 by simp
  then have w: "wr_bytes (H0 @ (H4 @ M1) @ (M2 @ P)) h M = Done (H0 @ M @ (M2 @ P))"
    using wr_bytes_mid [of H0 h "H4 @ M1" M "M2 @ P"] assms by simp
  have "memmove (H0 @ H4 @ M @ P) h (h + 4) m = Done (H0 @ M @ M2 @ P)"
    using r w by (simp add: memmove_def exec_bind_def M)
  then show ?thesis using l2 by blast
qed


lemma split_2_2:
  assumes "length T = 4"
  shows "\<exists>T1 T2. T = T1 @ T2 \<and> length T1 = 2 \<and> length T2 = (2::nat)"
proof -
  have "T = take 2 T @ drop 2 T" by simp
  moreover have "length (take 2 T) = 2" "length (drop 2 T) = 2" using assms by simp_all
  ultimately show ?thesis by blast
qed

lemma skb_cow_head_enough:
  "headroom \<le> skb_data skb \<Longrightarrow> cloned skb = False \<Longrightarrow> skb_cow_head ok pad skb headroom = Some skb"
  by (simp add: skb_cow_head_def)

lemma push_tt_layout:
  assumes lens: "length H0 = h" "length H4 = 4" "length D = 12" "length E = 2"
    "length V + 14 = m"
  shows "push_tt e ok pad eth_tt
           \<lparr>head = H0 @ H4 @ D @ E @ V @ P, skb_data = h + 4, skb_len = n,
            mac_header = h + 4, mac_len = m, cloned = False\<rparr> fid
         = Done (None,
             \<lparr>head = H0 @ D @ [ucast (drop_bit 8 eth_tt), ucast eth_tt] @ V
                      @ cpu_bytes16 e fid @ cpu_bytes16 e (of_nat (n + 4) - 4) @ P,
              skb_data = h, skb_len = n + 4, mac_header = h, mac_len = m, cloned = False\<rparr>)"
proof -
  let ?skb = "\<lparr>head = H0 @ H4 @ D @ E @ V @ P, skb_data = h + 4, skb_len = n,
            mac_header = h + 4, mac_len = m, cloned = False\<rparr>"
  let ?X = "[ucast (drop_bit 8 eth_tt), ucast eth_tt] :: u8 list"
  have cow: "skb_cow_head ok pad ?skb TT_HLEN = Some ?skb"
    by (rule skb_cow_head_enough) (simp_all add: TT_HLEN_def)
  obtain T where T: "length T = 4"
    and mm: "memmove (H0 @ H4 @ (D @ E @ V) @ P) h (h + 4) m = Done (H0 @ (D @ E @ V) @ T @ P)"
    using memmove_down4 [of H0 h H4 "D @ E @ V" m P] lens by auto
  obtain T1 T2 where T12: "T = T1 @ T2" "length T1 = 2" "length T2 = 2"
    using split_2_2 [OF T] by blast
  have w1: "wr_bytes (H0 @ D @ E @ V @ T @ P) (h + 12) (cpu_bytes16 e (htons e eth_tt))
            = Done (H0 @ D @ ?X @ V @ T @ P)"
    using wr_bytes_mid [of "H0 @ D" "h + 12" E ?X "V @ T @ P"] lens
    by (simp add: cpu_bytes16_htons)
  have w2: "wr_bytes (H0 @ D @ ?X @ V @ T @ P) (h + m) (cpu_bytes16 e fid)
            = Done (H0 @ D @ ?X @ V @ cpu_bytes16 e fid @ T2 @ P)"
    using wr_bytes_mid [of "H0 @ D @ ?X @ V" "h + m" T1 "cpu_bytes16 e fid" "T2 @ P"] lens T12
    by (simp add: length_cpu_bytes16)
  have w3: "wr_bytes (H0 @ D @ ?X @ V @ cpu_bytes16 e fid @ T2 @ P) (h + m + 2) (cpu_bytes16 e w)
            = Done (H0 @ D @ ?X @ V @ cpu_bytes16 e fid @ cpu_bytes16 e w @ P)" for w
    using wr_bytes_mid [of "H0 @ D @ ?X @ V @ cpu_bytes16 e fid" "h + m + 2" T2
                           "cpu_bytes16 e w" P] lens T12
    by (simp add: length_cpu_bytes16)
  show ?thesis
    unfolding push_tt_def cow
    using mm w1 w2 w3 by (simp add: TT_HLEN_def exec_bind_def)
qed

lemma ip_bytes: "cpu_bytes16 e (htons e ETH_P_IP) = [8, 0]"
  by (simp add: cpu_bytes16_htons ETH_P_IP_def)

lemma pop_tt_layout:
  assumes lens: "length H0 = h" "length D = 12" "length X = 2" "length F = 2" "length L = 2"
    and n: "14 \<le> n"
  shows "pop_tt e ok
           \<lparr>head = H0 @ D @ X @ F @ L @ P, skb_data = h, skb_len = n + 4,
            mac_header = h, mac_len = 14, cloned = False\<rparr>
         = Done (None,
             \<lparr>head = H0 @ take 4 D @ D @ [8, 0] @ P,
              skb_data = h + 4, skb_len = n, mac_header = h + 4, mac_len = 14,
              cloned = False\<rparr>)"
proof -
  let ?skb = "\<lparr>head = H0 @ D @ X @ F @ L @ P, skb_data = h, skb_len = n + 4,
            mac_header = h, mac_len = 14, cloned = False\<rparr>"
  have ew: "skb_ensure_writable ok ?skb (14 + TT_HLEN) = Some ?skb"
    using n by (simp add: skb_ensure_writable_def TT_HLEN_def)
  have r: "rd_bytes (H0 @ D @ X @ F @ L @ P) h 14 = Done (D @ X)"
    using rd_bytes_mid [of H0 h "D @ X" 14 "F @ L @ P"] lens by simp
  have eq: "H0 @ D @ X @ F @ L @ P = H0 @ take 4 D @ (drop 4 D @ X @ F @ L) @ P"
    by simp
  have w: "wr_bytes (H0 @ D @ X @ F @ L @ P) (h + 4) (D @ X) = Done (H0 @ take 4 D @ D @ X @ P)"
    unfolding eq
    using wr_bytes_mid [of "H0 @ take 4 D" "h + 4" "drop 4 D @ X @ F @ L" "D @ X" P] lens
    by simp
  have mm: "memmove (H0 @ D @ X @ F @ L @ P) (h + 4) h 14 = Done (H0 @ take 4 D @ D @ X @ P)"
    using r w by (simp add: memmove_def exec_bind_def)
  have w2: "wr_bytes (H0 @ take 4 D @ D @ X @ P) (h + 16) (cpu_bytes16 e (htons e ETH_P_IP))
            = Done (H0 @ take 4 D @ D @ [8, 0] @ P)"
    using wr_bytes_mid [of "H0 @ take 4 D @ D" "h + 16" X "[8, 0]" P] lens
    by (simp add: ip_bytes)
  have hh: "16 + h = h + 16" by simp
  note w2' = w2 [folded hh]
  show ?thesis
    unfolding pop_tt_def
    using ew mm w2' by (simp add: TT_HLEN_def ETH_HLEN_def exec_bind_def Let_def)
qed

lemma buf_split:
  assumes d: "4 \<le> d" and m: "14 \<le> m" and len: "d + m \<le> length b"
  shows "\<exists>H0 H4 D E V P. b = H0 @ H4 @ D @ E @ V @ P \<and> length H0 = d - 4 \<and> length H4 = 4
           \<and> length D = 12 \<and> length E = 2 \<and> length V + 14 = m
           \<and> E = take 2 (drop (d + 12) b) \<and> D @ E @ V @ P = drop d b"
proof -
  define H0 where "H0 = take (d - 4) b"
  define R1 where "R1 = drop (d - 4) b"
  define H4 where "H4 = take 4 R1"
  define R2 where "R2 = drop 4 R1"
  define D where "D = take 12 R2"
  define R3 where "R3 = drop 12 R2"
  define E where "E = take 2 R3"
  define R4 where "R4 = drop 2 R3"
  define V where "V = take (m - 14) R4"
  define P where "P = drop (m - 14) R4"
  have b: "b = H0 @ R1" by (simp add: H0_def R1_def)
  have r1: "R1 = H4 @ R2" by (simp add: H4_def R2_def)
  have r2: "R2 = D @ R3" by (simp add: D_def R3_def)
  have r3: "R3 = E @ R4" by (simp add: E_def R4_def)
  have r4: "R4 = V @ P" by (simp add: V_def P_def)
  have R2d: "R2 = drop d b" using d by (simp add: R2_def R1_def)
  have R3d: "R3 = drop (d + 12) b" by (simp add: R3_def R2d add.commute)
  have l1: "length R1 = length b - (d - 4)" by (simp add: R1_def)
  have l2: "length R2 = length b - d" by (simp add: R2d)
  have l3: "length R3 = length b - d - 12" by (simp add: R3_def l2)
  have l4: "length R4 = length b - d - 14" by (simp add: R4_def l3)
  have "length H0 = d - 4" using d len by (simp add: H0_def)
  moreover have "length H4 = 4" using d m len by (simp add: H4_def l1)
  moreover have "length D = 12" using m len by (simp add: D_def l2)
  moreover have "length E = 2" using m len by (simp add: E_def l3)
  moreover have "length V + 14 = m" using m len by (simp add: V_def l4)
  moreover have "b = H0 @ H4 @ D @ E @ V @ P" by (simp only: b r1 r2 r3 r4)
  moreover have "E = take 2 (drop (d + 12) b)" by (simp only: E_def R3d)
  moreover have "D @ E @ V @ P = drop d b"
  proof -
    have "D @ E @ V @ P = R2" by (simp only: r2 r3 r4)
    then show ?thesis by (simp only: R2d)
  qed
  ultimately show ?thesis by blast
qed


lemma cpu_load16_net: "cpu_load16 e [ucast (drop_bit 8 v), ucast v] = htons e v"
  using cpu_load16_bytes16 [of e "htons e v"] by (simp only: cpu_bytes16_htons)

lemma take_drop_mid:
  "length A = off \<Longrightarrow> length M = n \<Longrightarrow> take n (drop off (A @ M @ C)) = M"
  by simp

lemma push_tt_s3:
  "push_tt e ok pad eth_tt s3_frame (htons e 0x0042)
     = Done (None, s3_pushed eth_tt (cpu_bytes16 e 100))"
  unfolding s3_frame_def s3_pushed_def
  using push_tt_layout [of "[]" 0 "replicate 4 0"
          "[0x11, 0x22, 0x33, 0x44, 0x55, 0x66, 0xaa, 0xbb, 0xcc, 0xdd, 0xee, 0xff]"
          "[0x08, 0x00]" "[]" 14 e ok pad eth_tt "replicate 86 0" 100 "htons e 0x0042"]
  by (simp add: cpu_bytes16_htons)

text \<open>
  Two bytes hold a value when one of the two byte orders reads it from them. This is so
  for a plain store of the value and for a store through \<open>htons\<close>, on either host.
\<close>

lemma length_bytes_either_store:
  "(\<exists>ord. cpu_load16 ord (cpu_bytes16 e v) = v) \<and>
   (\<exists>ord. cpu_load16 ord (cpu_bytes16 e (htons e v)) = v)"
proof
  have "cpu_load16 e (cpu_bytes16 e v) = v" by (rule cpu_load16_bytes16)
  then show "\<exists>ord. cpu_load16 ord (cpu_bytes16 e v) = v" by (rule exI)
next
  have "cpu_load16 BigEndian (cpu_bytes16 e (htons e v)) = v"
    by (simp only: cpu_bytes16_htons cpu_load16_net) (simp add: htons_def)
  then show "\<exists>ord. cpu_load16 ord (cpu_bytes16 e (htons e v)) = v" by (rule exI)
qed

section \<open>TT header codec: push and pop\<close>

text \<open>
  C7, as the specification states it, at scenario S3. On either byte order the TT header
  of the pushed frame is 00 42 followed by the length 100, not by 00 60 (96):
  \<open>skb->len\<close> already counts the four new bytes when 4 is subtracted from it. The two
  length bytes are 64 00 on a little-endian host and 00 64 on a big-endian one.
\<close>

theorem push_tt_s3_length_is_100:
  "push_tt LittleEndian True 64 0x88B5 s3_frame (htons LittleEndian 0x0042)
     = Done (None, s3_pushed 0x88B5 [0x64, 0x00]) \<and>
   tt_header_bytes (s3_pushed 0x88B5 [0x64, 0x00]) = [0x00, 0x42, 0x64, 0x00] \<and>
   push_tt BigEndian True 64 0x88B5 s3_frame (htons BigEndian 0x0042)
     = Done (None, s3_pushed 0x88B5 [0x00, 0x64]) \<and>
   tt_header_bytes (s3_pushed 0x88B5 [0x00, 0x64]) = [0x00, 0x42, 0x00, 0x64] \<and>
   [0x00, 0x42, 0x64, 0x00] \<noteq> [0x00, 0x42, 0x00, 0x60 :: u8] \<and>
   [0x00, 0x42, 0x00, 0x64] \<noteq> [0x00, 0x42, 0x00, 0x60 :: u8]"
  by (simp add: push_tt_s3 cpu_bytes16_def tt_header_bytes_def s3_pushed_def)

text \<open>
  C7, amended. For every frame whose data starts at a MAC header of at least 14 bytes
  inside the buffer, with at least four bytes of headroom and an unshared header,
  \<open>push_tt\<close> succeeds; the frame is four bytes longer and starts four bytes earlier; the
  EtherType field holds \<open>ETH_P_TT\<close> in network byte order; the TT header follows the MAC
  header, its flow_id field holds the bytes of the caller's network-order value, and the
  two bytes of its length field hold the length of the pushed frame minus 4, which is
  the length of the original frame (modulo 2^16). The order of the two bytes of the
  length field is left open: the statement holds of the store as it is written, without
  \<open>htons\<close>, and would hold of a store through \<open>htons\<close>.
\<close>

theorem push_tt_header:
  assumes mh: "mac_header skb = skb_data skb" and ml: "ETH_HLEN \<le> mac_len skb"
    and fit: "skb_data skb + mac_len skb \<le> length (head skb)"
    and room: "TT_HLEN \<le> skb_data skb" and wr: "cloned skb = False"
  shows "\<exists>out.
           push_tt e ok pad eth_tt skb (htons e fid) = Done (None, out) \<and>
           skb_len out = skb_len skb + 4 \<and>
           mac_header out + 4 = mac_header skb \<and> skb_data out = mac_header out \<and>
           mac_len out = mac_len skb \<and>
           take 2 (drop (mac_header out + 12) (head out))
             = [ucast (drop_bit 8 eth_tt), ucast eth_tt] \<and>
           take 2 (drop (mac_header out + mac_len out) (head out))
             = [ucast (drop_bit 8 fid), ucast fid] \<and>
           (\<exists>ord. cpu_load16 ord
                    (take 2 (drop (mac_header out + mac_len out + 2) (head out)))
                  = of_nat (skb_len out) - 4) \<and>
           (of_nat (skb_len out) - 4 :: u16) = of_nat (skb_len skb)"
proof -
  let ?d = "skb_data skb" and ?n = "skb_len skb" and ?m = "mac_len skb"
  have d4: "4 \<le> ?d" using room by (simp add: TT_HLEN_def)
  have m14: "14 \<le> ?m" using ml by (simp add: ETH_HLEN_def)
  obtain H0 H4 D E V P where b: "head skb = H0 @ H4 @ D @ E @ V @ P"
    and l: "length H0 = ?d - 4" "length H4 = 4" "length D = 12" "length E = 2"
           "length V + 14 = ?m"
    using buf_split [OF d4 m14 fit] by blast
  have dd: "?d - 4 + 4 = ?d" using d4 by simp
  have skb: "skb = \<lparr>head = H0 @ H4 @ D @ E @ V @ P, skb_data = (?d - 4) + 4, skb_len = ?n,
                      mac_header = (?d - 4) + 4, mac_len = ?m, cloned = False\<rparr>"
    using b mh wr dd by simp
  let ?X = "[ucast (drop_bit 8 eth_tt), ucast eth_tt] :: u8 list"
  let ?F = "[ucast (drop_bit 8 fid), ucast fid] :: u8 list"
  let ?L = "cpu_bytes16 e (of_nat (?n + 4) - 4)"
  let ?out = "\<lparr>head = H0 @ D @ ?X @ V @ ?F @ ?L @ P,
                skb_data = ?d - 4, skb_len = ?n + 4, mac_header = ?d - 4, mac_len = ?m,
                cloned = False\<rparr>"
  have push: "push_tt e ok pad eth_tt skb (htons e fid) = Done (None, ?out)"
    by (subst skb) (simp add: push_tt_layout [OF l] cpu_bytes16_htons)
  have x: "take 2 (drop (?d - 4 + 12) (H0 @ D @ ?X @ V @ ?F @ ?L @ P)) = ?X"
    using take_drop_mid [of "H0 @ D" "?d - 4 + 12" ?X 2 "V @ ?F @ ?L @ P"] l by simp
  have f: "take 2 (drop (?d - 4 + ?m) (H0 @ D @ ?X @ V @ ?F @ ?L @ P)) = ?F"
    using take_drop_mid [of "H0 @ D @ ?X @ V" "?d - 4 + ?m" ?F 2 "?L @ P"] l by simp
  have ln: "take 2 (drop (?d - 4 + ?m + 2) (H0 @ D @ ?X @ V @ ?F @ ?L @ P)) = ?L"
    using take_drop_mid [of "H0 @ D @ ?X @ V @ ?F" "?d - 4 + ?m + 2" ?L 2 P] l
    by (simp add: length_cpu_bytes16)
  have "cpu_load16 e ?L = of_nat (?n + 4) - 4" by (rule cpu_load16_bytes16)
  then have "cpu_load16 e
               (take 2 (drop (?d - 4 + ?m + 2) (H0 @ D @ ?X @ V @ ?F @ ?L @ P)))
             = of_nat (?n + 4) - 4"
    by (simp only: ln)
  then have lo: "\<exists>ord. cpu_load16 ord
                    (take 2 (drop (?d - 4 + ?m + 2) (H0 @ D @ ?X @ V @ ?F @ ?L @ P)))
                  = of_nat (?n + 4) - 4"
    by (rule exI)
  have fields: "skb_len ?out = ?n + 4" "mac_header ?out = ?d - 4" "skb_data ?out = ?d - 4"
    "mac_len ?out = ?m" "head ?out = H0 @ D @ ?X @ V @ ?F @ ?L @ P"
    by simp_all
  show ?thesis
  proof (intro exI [of _ ?out] conjI)
    show "push_tt e ok pad eth_tt skb (htons e fid) = Done (None, ?out)" by (rule push)
    show "skb_len ?out = skb_len skb + 4" by simp
    show "mac_header ?out + 4 = mac_header skb" using dd mh by simp
    show "skb_data ?out = mac_header ?out" by simp
    show "mac_len ?out = mac_len skb" by simp
    show "take 2 (drop (mac_header ?out + 12) (head ?out))
            = [ucast (drop_bit 8 eth_tt), ucast eth_tt]"
      using x by (simp only: fields)
    show "take 2 (drop (mac_header ?out + mac_len ?out) (head ?out))
            = [ucast (drop_bit 8 fid), ucast fid]"
      using f by (simp only: fields)
    show "\<exists>ord. cpu_load16 ord
                  (take 2 (drop (mac_header ?out + mac_len ?out + 2) (head ?out)))
                = of_nat (skb_len ?out) - 4"
      using lo by (simp only: fields)
    show "(of_nat (skb_len ?out) - 4 :: u16) = of_nat (skb_len skb)"
      by simp
  qed
qed

theorem push_tt_header_witness:
  "mac_header s3_frame = skb_data s3_frame \<and> ETH_HLEN \<le> mac_len s3_frame \<and>
   skb_data s3_frame + mac_len s3_frame \<le> length (head s3_frame) \<and>
   TT_HLEN \<le> skb_data s3_frame \<and> cloned s3_frame = False \<and>
   (\<exists>out.
      push_tt LittleEndian True 64 0x88B5 s3_frame (htons LittleEndian 0x0042)
        = Done (None, out) \<and>
      skb_len out = 104 \<and> mac_header out = 0 \<and>
      take 2 (drop 12 (head out)) = [0x88, 0xB5] \<and>
      take 2 (drop 14 (head out)) = [0x00, 0x42] \<and>
      (\<exists>ord. cpu_load16 ord (take 2 (drop 16 (head out))) = 100))"
proof -
  have h: "mac_header s3_frame = skb_data s3_frame" "ETH_HLEN \<le> mac_len s3_frame"
    "skb_data s3_frame + mac_len s3_frame \<le> length (head s3_frame)"
    "TT_HLEN \<le> skb_data s3_frame" "cloned s3_frame = False"
    by (simp_all add: s3_frame_def ETH_HLEN_def TT_HLEN_def)
  obtain out where o:
    "push_tt LittleEndian True 64 0x88B5 s3_frame (htons LittleEndian 0x0042) = Done (None, out)"
    "skb_len out = skb_len s3_frame + 4" "mac_header out + 4 = mac_header s3_frame"
    "mac_len out = mac_len s3_frame"
    "take 2 (drop (mac_header out + 12) (head out))
       = [ucast (drop_bit 8 (0x88B5 :: u16)), ucast (0x88B5 :: u16)]"
    "take 2 (drop (mac_header out + mac_len out) (head out))
       = [ucast (drop_bit 8 (0x0042 :: u16)), ucast (0x0042 :: u16)]"
    "\<exists>ord. cpu_load16 ord (take 2 (drop (mac_header out + mac_len out + 2) (head out)))
             = of_nat (skb_len out) - 4"
    using push_tt_header [OF h, of LittleEndian True 64 "0x88B5" "0x0042"] by blast
  have m0: "mac_header out = 0" and l: "skb_len out = 104" and ml: "mac_len out = 14"
    using o(2,3,4) by (simp_all add: s3_frame_def)
  show ?thesis
    using h o(1) o(5,6,7) by (intro conjI exI [of _ out]) (simp_all add: m0 l ml)
qed

text \<open>
  C8. For every IPv4 frame with at least four bytes of headroom and an unshared
  (writable) buffer, \<open>push_tt\<close> succeeds, the frame it leaves is a TT frame for
  \<open>is_tt_packet\<close>, and \<open>pop_tt\<close> on that frame succeeds and gives back the original: every
  byte from the start of the frame to the end of the buffer and every field of the
  buffer descriptor. Only the headroom may differ.
\<close>

theorem push_pop_roundtrip:
  assumes ip: "ipv4_frame skb" and room: "TT_HLEN \<le> skb_data skb" and wr: "cloned skb = False"
  shows "\<exists>mid out.
           push_tt e ok pad eth_tt skb fid = Done (None, mid) \<and>
           is_tt_packet e eth_tt mid = Done True \<and>
           pop_tt e ok mid = Done (None, out) \<and>
           drop (skb_data out) (head out) = drop (skb_data skb) (head skb) \<and>
           skb_data out = skb_data skb \<and> skb_len out = skb_len skb \<and>
           mac_header out = mac_header skb \<and> mac_len out = mac_len skb \<and>
           cloned out = cloned skb"
proof -
  let ?d = "skb_data skb" and ?n = "skb_len skb"
  have d4: "4 \<le> ?d" using room by (simp add: TT_HLEN_def)
  have n14: "14 \<le> ?n" and mh: "mac_header skb = ?d" and ml: "mac_len skb = 14"
    and fit: "?d + 14 \<le> length (head skb)"
    and et: "take 2 (drop (?d + 12) (head skb)) = [0x08, 0x00]"
    using ip by (simp_all add: ipv4_frame_def ETH_HLEN_def)
  obtain H0 H4 D E V P where b: "head skb = H0 @ H4 @ D @ E @ V @ P"
    and l: "length H0 = ?d - 4" "length H4 = 4" "length D = 12" "length E = 2"
           "length V + 14 = 14"
    and E: "E = take 2 (drop (?d + 12) (head skb))"
    and rest: "D @ E @ V @ P = drop ?d (head skb)"
    using buf_split [OF d4 order_refl fit] by blast
  have V: "V = []" using l by simp
  have E8: "E = [8, 0]" using E et by simp
  have dd: "?d - 4 + 4 = ?d" using d4 by simp
  have skb: "skb = \<lparr>head = H0 @ H4 @ D @ E @ V @ P, skb_data = (?d - 4) + 4, skb_len = ?n,
                      mac_header = (?d - 4) + 4, mac_len = 14, cloned = False\<rparr>"
    using b mh ml wr dd by simp
  let ?X = "[ucast (drop_bit 8 eth_tt), ucast eth_tt] :: u8 list"
  let ?mid = "\<lparr>head = H0 @ D @ ?X @ V @ cpu_bytes16 e fid
                        @ cpu_bytes16 e (of_nat (?n + 4) - 4) @ P,
                skb_data = ?d - 4, skb_len = ?n + 4, mac_header = ?d - 4, mac_len = 14,
                cloned = False\<rparr>"
  let ?out = "\<lparr>head = H0 @ take 4 D @ D @ [8, 0] @ P,
                skb_data = (?d - 4) + 4, skb_len = ?n, mac_header = (?d - 4) + 4, mac_len = 14,
                cloned = False\<rparr>"
  have push: "push_tt e ok pad eth_tt skb fid = Done (None, ?mid)"
    by (subst skb) (rule push_tt_layout [OF l])
  have pop: "pop_tt e ok ?mid = Done (None, ?out)"
    unfolding V append_Nil
    by (rule pop_tt_layout) (simp_all add: l length_cpu_bytes16 n14)
  have rdx: "rd_bytes (head ?mid) (mac_header ?mid + 12) 2 = Done ?X"
    using rd_bytes_mid [of "H0 @ D" "?d - 4 + 12" ?X 2] l by simp
  have tt: "is_tt_packet e eth_tt ?mid = Done True"
    unfolding is_tt_packet_def rdx
    by (simp add: exec_bind_def eth_p_tt_def cpu_load16_net)
  have bytes: "drop (skb_data ?out) (head ?out) = drop ?d (head skb)"
    using l by (simp add: rest [symmetric] E8 V)
  show ?thesis
    using push tt pop bytes mh ml wr dd by (intro exI [of _ ?mid] exI [of _ ?out]) simp
qed

theorem push_pop_roundtrip_witness:
  "ipv4_frame s3_frame \<and> TT_HLEN \<le> skb_data s3_frame \<and> cloned s3_frame = False \<and>
   (\<exists>mid out.
      push_tt LittleEndian True 64 0x88B5 s3_frame (htons LittleEndian 0x0042)
        = Done (None, mid) \<and>
      is_tt_packet LittleEndian 0x88B5 mid = Done True \<and>
      pop_tt LittleEndian True mid = Done (None, out) \<and>
      drop (skb_data out) (head out) = drop (skb_data s3_frame) (head s3_frame) \<and>
      skb_len out = 100)"
proof -
  have h: "ipv4_frame s3_frame" "TT_HLEN \<le> skb_data s3_frame" "cloned s3_frame = False"
    by (simp_all add: ipv4_frame_def s3_frame_def ETH_HLEN_def TT_HLEN_def)
  obtain mid out where o:
    "push_tt LittleEndian True 64 0x88B5 s3_frame (htons LittleEndian 0x0042) = Done (None, mid)"
    "is_tt_packet LittleEndian 0x88B5 mid = Done True"
    "pop_tt LittleEndian True mid = Done (None, out)"
    "drop (skb_data out) (head out) = drop (skb_data s3_frame) (head s3_frame)"
    "skb_len out = skb_len s3_frame"
    using push_pop_roundtrip [OF h, of LittleEndian True 64 "0x88B5" "htons LittleEndian 0x0042"]
    by blast
  have "skb_len out = 100" using o(5) by (simp add: s3_frame_def)
  then show ?thesis using h o(1,2,3,4) by blast
qed

section \<open>Dispatcher: the macro period\<close>

text \<open>
  \<open>gcd\<close> and \<open>lcm\<close> compute the mathematical values as long as every divisor handed
  to \<open>do_div\<close> is below \<open>2^32\<close> and the product fits in 64 bits.
\<close>

lemma base32_small: "unat b < 2 ^ 32 \<Longrightarrow> base32 b = b"
  by (rule word_unat_eq_iff [THEN iffD2]) (simp add: base32_unat take_bit_nat_eq_self)

lemma gcd64_correct:
  "unat b < 2 ^ 32 \<Longrightarrow> \<exists>g. gcd64 a b = Done g \<and> unat g = gcd (unat a) (unat b)"
proof (induction a b rule: gcd64.induct)
  case (1 a b)
  show ?case
  proof (cases "b = 0")
    case True
    then show ?thesis by (simp add: gcd64.simps)
  next
    case False
    have b32: "base32 b = b" using "1.prems" by (rule base32_small)
    have nz: "base32 b \<noteq> 0" using False b32 by simp
    have r: "snd (do_div a b) = a mod b" by (simp add: do_div_def b32)
    have "0 < unat b" using False by (simp add: unat_gt_0)
    then have "unat a mod unat b < unat b" by (rule mod_less_divisor)
    then have small: "unat (snd (do_div a b)) < 2 ^ 32"
      using "1.prems" by (simp add: r unat_mod)
    obtain g where g: "gcd64 b (snd (do_div a b)) = Done g"
      "unat g = gcd (unat b) (unat (snd (do_div a b)))"
      using "1.IH" [OF False nz small] by blast
    have "gcd (unat b) (unat (a mod b)) = gcd (unat b) (unat a mod unat b)"
      by (simp add: unat_mod)
    also have "\<dots> = gcd (unat a) (unat b)" by (metis gcd.commute gcd_red_nat)
    finally have e: "unat g = gcd (unat a) (unat b)" using g(2) r by simp
    have "gcd64 a b = Done g" using False nz g(1) by (subst gcd64.simps) simp
    then show ?thesis using e by simp
  qed
qed

lemma lcm64_correct:
  assumes a: "a \<noteq> 0" and b0: "b \<noteq> 0" and b: "unat b < 2 ^ 32"
    and fits: "lcm (unat a) (unat b) < 2 ^ 64"
  shows "\<exists>c. lcm64 a b = Done c \<and> unat c = lcm (unat a) (unat b)"
proof -
  obtain g where run: "gcd64 a b = Done g" and g: "unat g = gcd (unat a) (unat b)"
    using gcd64_correct [OF b] by blast
  have a0: "0 < unat a" using a by (simp add: unat_gt_0)
  have bpos: "0 < unat b" using b0 by (simp add: unat_gt_0)
  have gpos: "0 < unat g" using g a0 by simp
  have g0: "g \<noteq> 0" using gpos by (simp add: unat_gt_0)
  have "unat g \<le> unat b" unfolding g using bpos by (rule gcd_le2_nat [OF less_imp_neq [THEN not_sym]])
  then have gs: "unat g < 2 ^ 32" using b by simp
  have g32: "base32 g = g" using gs by (rule base32_small)
  have q: "unat (a div g) = unat a div gcd (unat a) (unat b)" by (simp add: unat_div g)
  have l: "unat a div gcd (unat a) (unat b) * unat b = lcm (unat a) (unat b)"
    by (simp add: lcm_nat_def dvd_div_mult)
  have "unat (a div g) * unat b < 2 ^ LENGTH(64)" using fits q l by simp
  then have "unat (a div g * b) = unat (a div g) * unat b"
    by (rule iffD1 [OF unat_mult_lem])
  then have "unat (a div g * b) = lcm (unat a) (unat b)" using q l by simp
  then show ?thesis
    using g0 g32 run by (simp add: lcm64_def exec_bind_def do_div_def)
qed

lemma periods_simps [simp]:
  "periods [] = []"
  "periods (None # xs) = periods xs"
  "periods (Some it # xs) = unat (circle it) # periods xs"
  by (simp_all add: periods_def)

lemma Lcm_pos:
  fixes ps :: "nat list"
  assumes "\<forall>p \<in> set ps. 0 < p"
  shows "0 < Lcm (set ps)"
proof -
  have n: "0 \<notin> set ps" using assms by auto
  have "Lcm (set ps) = 0 \<longleftrightarrow> 0 \<in> set ps" by (rule Lcm_0_iff) simp
  with n have "Lcm (set ps) \<noteq> 0" by blast
  then show ?thesis by (rule iffD1 [OF neq0_conv])
qed

lemma macro_loop_correct:
  assumes "m \<noteq> 0" and "\<forall>p \<in> set (periods items). 0 < p \<and> p < 2 ^ 32"
    and "lcm (unat m) (Lcm (set (periods items))) < 2 ^ 64"
  shows "\<exists>r. macro_loop items m = Done r \<and>
           unat r = lcm (unat m) (Lcm (set (periods items)))"
  using assms
proof (induction items arbitrary: m)
  case Nil
  then show ?case by simp
next
  case (Cons x xs)
  show ?case
  proof (cases x)
    case None
    then show ?thesis using Cons by simp
  next
    case (Some it)
    let ?p = "unat (circle it)" and ?S = "set (periods xs)"
    have pos: "0 < ?p" and small: "?p < 2 ^ 32"
      and rest: "\<forall>p \<in> ?S. 0 < p \<and> p < 2 ^ 32"
      using Cons.prems(2) Some by simp_all
    have posS: "\<forall>p \<in> ?S. 0 < p" using rest by simp
    have c0': "circle it \<noteq> 0" using pos by (simp add: unat_gt_0)
    have m0: "0 < unat m" using Cons.prems(1) by (simp add: unat_gt_0)
    have L: "0 < Lcm ?S" using posS by (rule Lcm_pos)
    have total: "lcm (unat m) (lcm ?p (Lcm ?S)) < 2 ^ 64"
      using Cons.prems(3) Some by simp
    have tpos: "0 < lcm (unat m) (lcm ?p (Lcm ?S))"
      using m0 pos L by (simp add: lcm_pos_nat)
    have "lcm (unat m) ?p dvd lcm (unat m) (lcm ?p (Lcm ?S))"
      by (simp add: lcm.assoc [symmetric])
    then have "lcm (unat m) ?p \<le> lcm (unat m) (lcm ?p (Lcm ?S))"
      using tpos by (rule dvd_imp_le)
    then have fits1: "lcm (unat m) ?p < 2 ^ 64" using total by simp
    obtain c where c: "lcm64 m (circle it) = Done c" "unat c = lcm (unat m) ?p"
      using lcm64_correct [OF Cons.prems(1) c0' small fits1] by blast
    have cpos: "0 < unat c" using c(2) m0 pos by (simp add: lcm_pos_nat)
    then have c0: "c \<noteq> 0" by (simp add: unat_gt_0)
    have fits2: "lcm (unat c) (Lcm ?S) < 2 ^ 64"
      using total by (simp add: c(2) lcm.assoc)
    obtain r where r: "macro_loop xs c = Done r" "unat r = lcm (unat c) (Lcm ?S)"
      using Cons.IH [OF c0 rest fits2] by blast
    show ?thesis
      using Some c r by (simp add: exec_bind_def lcm.assoc)
  qed
qed

text \<open>
  C6, as the specification states it, fails when the least common multiple does not fit
  in 64 bits: for the periods 2^32 - 1, 2^32 - 2 and 2^32 - 3 the product \<open>a * b\<close> of
  the last \<open>lcm\<close> wraps and the loop of \<open>dispatch\<close> leaves macro period 47244640250, which
  2^32 - 1 does not divide.
\<close>

theorem macro_period_overflow:
  "macro_loop overflow_items 1 = Done 47244640250 \<and>
   periods overflow_items = [4294967295, 4294967294, 4294967293] \<and>
   \<not> (4294967295 :: nat) dvd unat (47244640250 :: u64)"
  by (simp add: overflow_items_def lcm64_def gcd64.simps do_div_def base32_def exec_bind_def)

text \<open>A period of 2^32 nanoseconds is a zero divisor for \<open>do_div\<close>.\<close>

lemma macro_period_divisor_truncated:
  "macro_loop [Some \<lparr>flow_id = 0, buffer_id = 0, circle = 4294967296, len = 0, time = 0\<rparr>] 1
     = Fault DivideByZero"
  by (simp add: lcm64_def gcd64.simps do_div_def base32_def exec_bind_def)

text \<open>
  C6, amended. For a send table of at most 65535 slots, the range of the \<open>__u16\<close> loop
  counter, \<open>macro_loop\<close> on its slots is the first loop of \<open>dispatch\<close>, started at 1 as
  there, and its value is what \<open>dispatch\<close> stores as the macro period. When every present
  entry of such a table has a positive period below 2^32 (the divisors of \<open>do_div\<close>) and
  the least common multiple of the periods is below 2^64, the loop returns and its
  value is that least common multiple: every period divides it and it is the least
  positive number they all divide.
\<close>

theorem macro_period_is_lcm:
  assumes slots: "tt_max t \<le> 65535"
    and range: "\<forall>p \<in> set (periods (tt_items t)). 0 < p \<and> p < 2 ^ 32"
    and fits: "Lcm (set (periods (tt_items t))) < 2 ^ 64"
  shows "\<exists>m. macro_loop (tt_items t) 1 = Done m \<and>
           unat m = Lcm (set (periods (tt_items t))) \<and>
           0 < unat m \<and>
           (\<forall>p \<in> set (periods (tt_items t)). p dvd unat m) \<and>
           (\<forall>k. 0 < k \<and> (\<forall>p \<in> set (periods (tt_items t)). p dvd k)
                  \<longrightarrow> unat m \<le> k)"
proof -
  let ?ps = "periods (tt_items t)"
  have "lcm (unat (1 :: u64)) (Lcm (set ?ps)) < 2 ^ 64" using fits by simp
  then obtain m where m: "macro_loop (tt_items t) 1 = Done m"
      "unat m = lcm (unat (1 :: u64)) (Lcm (set ?ps))"
    using macro_loop_correct [of 1 "tt_items t"] range by auto
  have pos: "\<forall>p \<in> set ?ps. 0 < p" using range by simp
  have eq: "unat m = Lcm (set ?ps)" using m(2) by simp
  have p: "0 < unat m" unfolding eq using pos by (rule Lcm_pos)
  have d: "\<forall>p \<in> set ?ps. p dvd unat m" unfolding eq by simp
  have least: "unat m \<le> k" if "0 < k" and "\<forall>p \<in> set ?ps. p dvd k" for k
  proof -
    have "Lcm (set ?ps) dvd k" using that(2) by (simp add: Lcm_least)
    then show ?thesis unfolding eq using that(1) by (rule dvd_imp_le)
  qed
  show ?thesis using m(1) eq p d least by blast
qed

theorem macro_period_is_lcm_witness:
  "tt_max s1_table \<le> 65535 \<and>
   periods (tt_items s1_table) = [300, 500] \<and>
   Lcm (set (periods (tt_items s1_table))) < 2 ^ 64 \<and>
   macro_loop (tt_items s1_table) 1 = Done 1500 \<and>
   300 dvd unat (1500 :: u64) \<and> 500 dvd unat (1500 :: u64)"
proof -
  have run: "macro_loop (tt_items s1_table) 1 = Done 1500"
    by (simp add: s1_table_def lcm64_def gcd64.simps do_div_def base32_def exec_bind_def)
  have ps: "periods (tt_items s1_table) = [300, 500]" by (simp add: s1_table_def)
  have L: "Lcm (set (periods (tt_items s1_table))) = 1500"
    by (simp add: ps lcm_nat_def gcd_nat.simps)
  have h1: "\<forall>p \<in> set (periods (tt_items s1_table)). 0 < p \<and> p < 2 ^ 32"
    by (simp add: ps)
  have h2: "Lcm (set (periods (tt_items s1_table))) < 2 ^ 64" by (simp add: L)
  have h0: "tt_max s1_table \<le> 65535" by (simp add: s1_table_def tt_max_def)
  obtain m where "macro_loop (tt_items s1_table) 1 = Done m"
    "\<forall>p \<in> set (periods (tt_items s1_table)). p dvd unat m"
    using macro_period_is_lcm [OF h0 h1 h2] by blast
  then have "300 dvd unat (1500 :: u64) \<and> 500 dvd unat (1500 :: u64)"
    using run by (simp add: ps)
  then show ?thesis using h0 ps h2 run by blast
qed

section \<open>Schedule lookup: the next instant\<close>

text \<open>
  The loop of \<open>binarySearch\<close> keeps every time left of \<open>left\<close> at most \<open>modTime\<close> and the
  time at \<open>right\<close> above it, so it ends on the first instant that is still ahead.
\<close>

lemma bs_loop_correct:
  fixes a :: "u64 list"
  assumes "sorted_wrt (<) a" "unat right < length a" "left \<le> right"
    "\<forall>j < unat left. a ! j \<le> m" "m < a ! unat right"
  shows "\<exists>idx. binarySearch_loop a m left right = Done idx \<and> unat idx < length a \<and>
           m < a ! unat idx \<and> (\<forall>j < unat idx. a ! j \<le> m)"
  using assms
proof (induction a m left right rule: binarySearch_loop.induct)
  case (1 a m left right)
  show ?case
  proof (cases "left < right")
    case False
    then have "left = right" using "1.prems"(3) by simp
    then show ?thesis using "1.prems" by (subst binarySearch_loop.simps) simp
  next
    case True
    define mid where "mid = (right - left) div 2 + left"
    have um: "unat mid = unat left + (unat right - unat left) div 2"
      unfolding mid_def by (rule mid_unat [OF True])
    have lt: "unat left < unat right" using True by (simp add: word_less_nat_alt)
    have mid_lt: "unat mid < unat right" and mid_ge: "unat left \<le> unat mid"
      using um lt by simp_all
    have rdm: "rd a (unat mid) = Done (a ! unat mid)"
      using mid_lt "1.prems"(2) by (simp add: rd_def)
    show ?thesis
    proof (cases "a ! unat mid \<le> m")
      case le: True
      have us: "unat (mid + 1) = Suc (unat mid)"
        unfolding mid_def using mid_succ_unat [OF True] um by (simp add: mid_def)
      have l': "mid + 1 \<le> right" using us mid_lt by (simp add: word_le_nat_alt)
      have inv: "\<forall>j < unat (mid + 1). a ! j \<le> m"
      proof (intro allI impI)
        fix j assume "j < unat (mid + 1)"
        then have "j < unat mid \<or> j = unat mid" using us by auto
        then show "a ! j \<le> m"
        proof
          assume "j < unat mid"
          then have "a ! j < a ! unat mid"
            using sorted_wrt_nth_less [OF "1.prems"(1), of j "unat mid"] mid_lt "1.prems"(2)
            by simp
          then show ?thesis using le by simp
        next
          assume "j = unat mid"
          then show ?thesis using le by simp
        qed
      qed
      have "\<exists>idx. binarySearch_loop a m (mid + 1) right = Done idx \<and> unat idx < length a \<and>
           m < a ! unat idx \<and> (\<forall>j < unat idx. a ! j \<le> m)"
        using "1.IH"(1) [OF True mid_def rdm le "1.prems"(1,2) l' inv "1.prems"(5)] .
      moreover have "binarySearch_loop a m left right = binarySearch_loop a m (mid + 1) right"
        using True rdm le by (subst binarySearch_loop.simps) (simp add: mid_def Let_def)
      ultimately show ?thesis by simp
    next
      case gt: False
      have r': "unat mid < length a" using mid_lt "1.prems"(2) by simp
      have l': "left \<le> mid" using mid_ge by (simp add: word_le_nat_alt)
      have m': "m < a ! unat mid" using gt by simp
      have "\<exists>idx. binarySearch_loop a m left mid = Done idx \<and> unat idx < length a \<and>
           m < a ! unat idx \<and> (\<forall>j < unat idx. a ! j \<le> m)"
        using "1.IH"(2) [OF True mid_def rdm gt "1.prems"(1) r' l' "1.prems"(4) m'] .
      moreover have "binarySearch_loop a m left right = binarySearch_loop a m left mid"
        using True rdm gt by (subst binarySearch_loop.simps) (simp add: mid_def Let_def)
      ultimately show ?thesis by simp
    qed
  qed
qed

text \<open>Casts between the 16-bit indices and the 64-bit size, and the index after \<open>do_div\<close>.\<close>

lemma unat_size16:
  assumes "n < 65536"
  shows "unat (ucast (of_nat n :: u64) :: u16) = n"
proof -
  have "unat (of_nat n :: u64) = n" using assms by (simp add: unat_of_nat)
  then have "unat (ucast (of_nat n :: u64) :: u16) = take_bit 16 n"
    by (simp add: unsigned_ucast_eq)
  then show ?thesis using assms by (simp add: take_bit_nat_eq_self)
qed

lemma unat_up64: "unat (ucast (u :: u16) :: u64) = unat u"
proof -
  have "unat u < 2 ^ 16" using unsigned_less [of u, where ?'a = nat] by simp
  then have "unat u < 2 ^ 64" by simp
  then show ?thesis by (simp add: unsigned_ucast_eq take_bit_nat_eq_self)
qed

lemma unat_down16:
  assumes "unat (x :: u64) < 65536"
  shows "unat (ucast x :: u16) = unat x"
  using assms by (simp add: unsigned_ucast_eq take_bit_nat_eq_self)

lemma do_div_index:
  fixes i :: u16 and sz :: u64
  assumes "0 < unat sz" "unat sz < 65536"
  shows "unat (ucast (snd (do_div (ucast i) sz)) :: u16) = unat i mod unat sz"
proof -
  have "unat sz < 2 ^ 32" using assms(2) by simp
  then have "base32 sz = sz" by (rule base32_small)
  then have "unat (snd (do_div (ucast i) sz)) = unat i mod unat sz"
    by (simp add: do_div_def unat_mod unat_up64)
  moreover have "unat i mod unat sz < unat sz" using assms(1) by (rule mod_less_divisor)
  then have "unat i mod unat sz < 65536" using assms(2) by (rule less_trans)
  ultimately show ?thesis by (simp add: unat_down16)
qed

text \<open>
  The whole result of \<open>get_next_time\<close> when an instant of the current macro period is
  still ahead. The third component is what the code computes: the quotient that the
  first \<open>do_div\<close> left in \<open>cur_time\<close>, plus the distance to the instant.
\<close>

lemma get_next_time_run:
  fixes ts :: "u64 list" and fs :: "u16 list"
  assumes asc: "sorted_wrt (<) ts" and n: "length ts = n" "length fs = n" "0 < n" "n < 65536"
    and macro: "macro \<noteq> 0" and m32: "unat macro < 2 ^ 32"
    and ahead: "t mod macro < last ts"
  shows "\<exists>idx. idx < n \<and> t mod macro < ts ! idx \<and> (\<forall>j < idx. ts ! j \<le> t mod macro) \<and>
           get_next_time
             \<lparr>macro_period = macro,
              send_cache = \<lparr>send_times = ts, flow_ids = fs, cache_size = of_nat n\<rparr>,
              advance_time = adv\<rparr> t
           = Done ((if (idx + 1) mod n = 0 then ts ! 0 + macro - ts ! idx
                    else ts ! ((idx + 1) mod n) - ts ! idx),
                   fs ! idx,
                   t div macro + (ts ! idx - t mod macro))"
proof -
  let ?m = "t mod macro"
  let ?si = "\<lparr>macro_period = macro,
              send_cache = \<lparr>send_times = ts, flow_ids = fs, cache_size = of_nat n\<rparr>,
              advance_time = adv\<rparr>"
  let ?sz = "ucast (of_nat n :: u64) :: u16"
  have usz: "unat ?sz = n" using n(4) by (rule unat_size16)
  have sz0: "?sz \<noteq> 0" using usz n(3) by (metis unat_0 less_numeral_extra(3))
  have ur: "unat (?sz - 1) = n - 1" using unat_minus_one [OF sz0] usz by simp
  have ne: "ts \<noteq> []" using n(1,3) by auto
  have last: "last ts = ts ! (n - 1)" using last_conv_nth [OF ne] n(1) by simp
  have "\<exists>idx. binarySearch_loop ts ?m 0 (?sz - 1) = Done idx \<and> unat idx < length ts \<and>
           ?m < ts ! unat idx \<and> (\<forall>j < unat idx. ts ! j \<le> ?m)"
    by (rule bs_loop_correct) (use asc n ur ahead last in simp_all)
  then obtain idx where loop: "binarySearch_loop ts ?m 0 (?sz - 1) = Done idx"
    and lt: "unat idx < n" and hi: "?m < ts ! unat idx"
    and lo: "\<forall>j < unat idx. ts ! j \<le> ?m"
    using n(1) by auto
  have un: "unat (of_nat n :: u64) = n" using n(4) by (simp add: unat_of_nat)
  have cs0: "(of_nat n :: u64) \<noteq> 0" using un n(3) by (metis unat_0 less_numeral_extra(3))
  have same: "(ucast (snd (do_div (ucast idx) (ucast ?sz))) :: u16) = idx"
  proof (rule word_unat_eq_iff [THEN iffD2])
    have "unat (ucast ?sz :: u64) = n" by (simp add: unat_up64 usz)
    then show "unat (ucast (snd (do_div (ucast idx) (ucast ?sz))) :: u16) = unat idx"
      using do_div_index [of "ucast ?sz" idx] n(3,4) lt by simp
  qed
  have "unat (ucast ?sz :: u64) < 2 ^ 32" using usz n(4) by (simp add: unat_up64)
  then have sz32: "base32 (ucast ?sz) = ucast ?sz" by (rule base32_small)
  have "unat (ucast ?sz :: u64) \<noteq> 0" using usz n(3) by (simp add: unat_up64)
  then have szn: "(ucast ?sz :: u64) \<noteq> 0" by (metis unat_0)
  have bs: "binarySearch ?si ?m = Done idx"
    using loop szn sz32 same by (simp add: binarySearch_def exec_bind_def Let_def)
  have u1: "unat (idx + 1) = unat idx + 1"
  proof -
    have "unat idx + unat (1 :: u16) < 2 ^ LENGTH(16)" using lt n(4) by simp
    then have "unat (idx + 1) = unat idx + unat (1 :: u16)" by (rule iffD1 [OF unat_add_lem])
    then show ?thesis by simp
  qed
  let ?nx = "ucast (snd (do_div (ucast (idx + 1)) (of_nat n :: u64))) :: u16"
  have unx: "unat ?nx = (unat idx + 1) mod n"
    using do_div_index [of "of_nat n" "idx + 1"] un n(3,4) u1 by simp
  have nx0: "(?nx = 0) = ((unat idx + 1) mod n = 0)"
    using unx by (metis unat_0 unat_eq_zero)
  have nlt: "(unat idx + 1) mod n < n" using n(3) by simp
  have r1: "rd fs (unat idx) = Done (fs ! unat idx)" using lt n(2) by (simp add: rd_def)
  have r2: "rd ts (unat ?nx) = Done (ts ! ((unat idx + 1) mod n))"
    using nlt n(1) unx by (simp add: rd_def)
  have r3: "rd ts (unat idx) = Done (ts ! unat idx)" using lt n(1) by (simp add: rd_def)
  have nge: "\<not> ts ! unat idx < ?m" using hi by simp
  have mac32: "base32 macro = macro" using m32 by (rule base32_small)
  have "unat (of_nat n :: u64) < 2 ^ 32" using un n(4) by simp
  then have cs32: "base32 (of_nat n) = of_nat n" by (rule base32_small)
  have z: "(unat idx + 1) mod n = 0 \<Longrightarrow> ts ! ((unat idx + 1) mod n) = ts ! 0" by simp
  have "get_next_time ?si t
        = Done ((if (unat idx + 1) mod n = 0 then ts ! 0 + macro - ts ! unat idx
                 else ts ! ((unat idx + 1) mod n) - ts ! unat idx),
                fs ! unat idx, t div macro + (ts ! unat idx - ?m))"
    unfolding get_next_time_def
    using macro bs cs0 r1 r2 r3 nge nx0 z
    by (simp add: exec_bind_def Let_def do_div_def mac32 cs32)
  then show ?thesis using lt hi lo by blast
qed

lemmas lookup_simps = get_next_time_def binarySearch_def binarySearch_loop.simps do_div_def
  base32_def
  rd_def exec_bind_def Let_def

lemma get_next_time_three_instants: "get_next_time three_instants 50 = Done (200, 11, 50)"
  by (simp add: three_instants_def lookup_simps)

lemma spec_next_three_instants:
  "spec_next 1500 [0, 100, 300] [10, 11, 12] 50 = (100, 10, 1500)"
  by code_simp

lemma get_next_time_s2: "get_next_time s2_send_info 0 = Done (1000, 7, 250)"
  by (simp add: s2_send_info_def lookup_simps)

text \<open>
  C2, as the specification states it, at instants [0, 100, 300], macro period 1500 and
  global time 50. The greatest index with a time of at most 50 is 0, which would give
  flow 10, wait 100 and send time 1500. \<open>get_next_time\<close> returns flow 11, wait 200 and
  send time 50: the search ends on index 1, the first instant after 50.
\<close>

theorem get_next_time_not_greatest_below:
  "get_next_time three_instants 50 = Done (200, 11, 50) \<and>
   spec_next 1500 (map unat (send_times (send_cache three_instants)))
     (map unat (flow_ids (send_cache three_instants))) 50 = (100, 10, 1500)"
  using get_next_time_three_instants spec_next_three_instants
  by (simp add: three_instants_def)

text \<open>
  C2, amended. For every send cache with strictly ascending times below the macro
  period, a macro period below 2^32 (the divisor of \<open>do_div\<close>), a length between 1 and
  65535, and every global time \<open>t\<close> for which an
  instant of the current macro period is still ahead (\<open>t mod macro_period\<close> is below the
  last time), \<open>get_next_time\<close> returns, and selects the least index \<open>idx\<close> whose time is
  above \<open>t mod macro_period\<close>: the next instant. The flow is \<open>flow_ids[idx]\<close> and the wait
  is \<open>times[(idx+1) mod size] - times[idx]\<close>, with the macro period added when the next
  index wraps to 0.
\<close>

theorem get_next_time_next_instant:
  fixes ts :: "u64 list" and fs :: "u16 list"
  assumes asc: "sorted_wrt (<) ts" and n: "length ts = n" "length fs = n" "0 < n" "n < 65536"
    and inside: "\<forall>x \<in> set ts. x < macro" and m32: "unat macro < 2 ^ 32"
    and ahead: "t mod macro < last ts"
  shows "\<exists>idx wait st.
           get_next_time
             \<lparr>macro_period = macro,
              send_cache = \<lparr>send_times = ts, flow_ids = fs, cache_size = of_nat n\<rparr>,
              advance_time = adv\<rparr> t
           = Done (wait, fs ! idx, st) \<and>
           idx < n \<and> t mod macro < ts ! idx \<and> (\<forall>j < idx. ts ! j \<le> t mod macro) \<and>
           unat wait = (if (idx + 1) mod n = 0
                        then unat (ts ! 0) + unat macro - unat (ts ! idx)
                        else unat (ts ! ((idx + 1) mod n)) - unat (ts ! idx))"
proof -
  have ne: "ts \<noteq> []" using n(1,3) by auto
  have "last ts \<in> set ts" using ne by simp
  then have "last ts < macro" using inside by blast
  then have macro: "macro \<noteq> 0" by (metis word_not_simps(1))
  obtain idx where lt: "idx < n" and hi: "t mod macro < ts ! idx"
    and lo: "\<forall>j < idx. ts ! j \<le> t mod macro"
    and run: "get_next_time
             \<lparr>macro_period = macro,
              send_cache = \<lparr>send_times = ts, flow_ids = fs, cache_size = of_nat n\<rparr>,
              advance_time = adv\<rparr> t
           = Done ((if (idx + 1) mod n = 0 then ts ! 0 + macro - ts ! idx
                    else ts ! ((idx + 1) mod n) - ts ! idx),
                   fs ! idx, t div macro + (ts ! idx - t mod macro))"
    using get_next_time_run [OF asc n macro m32 ahead] by blast
  let ?w = "if (idx + 1) mod n = 0 then ts ! 0 + macro - ts ! idx
            else ts ! ((idx + 1) mod n) - ts ! idx"
  have im: "ts ! idx < macro" using inside lt n(1) by simp
  have w: "unat ?w = (if (idx + 1) mod n = 0
                      then unat (ts ! 0) + unat macro - unat (ts ! idx)
                      else unat (ts ! ((idx + 1) mod n)) - unat (ts ! idx))"
  proof (cases "(idx + 1) mod n = 0")
    case True
    have le0: "ts ! 0 \<le> ts ! idx"
    proof (cases "idx = 0")
      case True then show ?thesis by simp
    next
      case False
      then have "ts ! 0 < ts ! idx"
        using sorted_wrt_nth_less [OF asc, of 0 idx] lt n(1) by simp
      then show ?thesis by simp
    qed
    have a: "unat (macro - ts ! idx) = unat macro - unat (ts ! idx)"
      using im by (simp add: unat_sub)
    have b: "unat (ts ! 0) \<le> unat (ts ! idx)" using le0 by (simp add: word_le_nat_alt)
    have c: "unat (ts ! idx) < unat macro" using im by (simp add: word_less_nat_alt)
    have d: "unat macro < 2 ^ LENGTH(64)" by (rule unsigned_less)
    have "unat (ts ! 0) + unat (macro - ts ! idx) < 2 ^ LENGTH(64)" using a b c d by simp
    then have s: "unat (ts ! 0 + (macro - ts ! idx)) = unat (ts ! 0) + unat (macro - ts ! idx)"
      by (rule iffD1 [OF unat_add_lem])
    have e: "ts ! 0 + macro - ts ! idx = ts ! 0 + (macro - ts ! idx)" by simp
    have "unat (ts ! 0 + macro - ts ! idx) = unat (ts ! 0) + unat (macro - ts ! idx)"
      by (simp only: e s)
    also have "\<dots> = unat (ts ! 0) + unat macro - unat (ts ! idx)" using a c by simp
    finally show ?thesis using True by simp
  next
    case False
    have "idx + 1 < n"
    proof (rule ccontr)
      assume "\<not> idx + 1 < n"
      then have "idx + 1 = n" using lt by simp
      then show False using False by simp
    qed
    then have nx: "(idx + 1) mod n = idx + 1" by simp
    have "ts ! idx < ts ! (idx + 1)"
      using sorted_wrt_nth_less [OF asc, of idx "idx + 1"] \<open>idx + 1 < n\<close> n(1) by simp
    then have "unat (ts ! (idx + 1) - ts ! idx) = unat (ts ! (idx + 1)) - unat (ts ! idx)"
      by (simp add: unat_sub)
    then show ?thesis using False nx by simp
  qed
  show ?thesis using run lt hi lo w by blast
qed

theorem get_next_time_next_instant_witness:
  "sorted_wrt (<) [250 :: u64] \<and> length [250 :: u64] = 1 \<and> length [7 :: u16] = 1 \<and>
   set [250 :: u64] = {250} \<and> (250 :: u64) < 1000 \<and> unat (1000 :: u64) < 2 ^ 32 \<and>
   (0 :: u64) mod 1000 < last [250] \<and>
   get_next_time s2_send_info 0 = Done (1000, 7, 250) \<and>
   (\<exists>idx wait st. get_next_time s2_send_info 0 = Done (wait, [7] ! idx, st) \<and>
      idx < 1 \<and> (0 :: u64) mod 1000 < [250] ! idx \<and> unat wait = 1000)"
proof -
  have h: "sorted_wrt (<) [250 :: u64]" "length [250 :: u64] = 1" "length [7 :: u16] = 1"
    "0 < (1 :: nat)" "(1 :: nat) < 65536"
    "\<forall>x \<in> set [250 :: u64]. x < 1000" "unat (1000 :: u64) < 2 ^ 32"
    "(0 :: u64) mod 1000 < last [250]"
    by simp_all
  obtain idx wait st where o:
    "get_next_time \<lparr>macro_period = 1000,
        send_cache = \<lparr>send_times = [250], flow_ids = [7], cache_size = of_nat 1\<rparr>,
        advance_time = None\<rparr> 0 = Done (wait, [7] ! idx, st)"
    "idx < 1"
    "(0 :: u64) mod 1000 < [250] ! idx"
    "unat wait = (if (idx + 1) mod 1 = 0
                  then unat ([250 :: u64] ! 0) + unat (1000 :: u64) - unat ([250 :: u64] ! idx)
                  else unat ([250 :: u64] ! ((idx + 1) mod 1)) - unat ([250 :: u64] ! idx))"
    using get_next_time_next_instant [OF h, of None]
    by (elim exE conjE) (rule that, assumption+)
  have i0: "idx = 0" using o(2) by simp
  have w: "unat wait = 1000" using o(4) by (simp add: i0)
  have r: "get_next_time s2_send_info 0 = Done (wait, [7] ! idx, st)"
    using o(1) by (simp add: s2_send_info_def)
  have "\<exists>idx wait st. get_next_time s2_send_info 0 = Done (wait, [7] ! idx, st) \<and>
      idx < 1 \<and> (0 :: u64) mod 1000 < [250] ! idx \<and> unat wait = 1000"
    using r o(2,3) w by blast
  then show ?thesis using get_next_time_s2 by simp
qed

end
